theory Spec2Isabelle
  imports Main "HOL-Library.Char_ord" "HOL-Library.List_Lexorder"
begin

section \<open>The ordered queue of \<open>src/queue.ts\<close>\<close>

text \<open>
  \<open>makeQueue\<close> closes over two pieces of mutable state: the array \<open>items\<close> and the
  identity-keyed \<open>WeakMap\<close> \<open>timestampMap\<close>. The model passes that state explicitly.

  An item is a JavaScript object with a string field \<open>key\<close>. Two objects with the same
  key are still different objects, so an item carries an identity next to its key, and the
  \<open>===\<close> of the source is equality of items. Keys are compared with the \<open>>\<close> of
  JavaScript strings, which is the lexicographic order on code units: here the order of
  \<open>HOL-Library.List_Lexorder\<close> over \<open>HOL-Library.Char_ord\<close>. The queue never
  assigns to \<open>key\<close>, and the model takes the key of an object as fixed.

  Timestamps are the integers that \<open>Date.now()\<close> produces (the TypeScript type is
  \<open>number\<close>; \<open>NaN\<close>, infinities and fractions are outside the model). Array indices
  are JavaScript numbers holding integers, hence \<open>int\<close>: the scan of \<open>enqueue\<close> ends
  at index \<open>-1\<close>, and \<open>indexOfItemInQueue\<close> returns \<open>-1\<close> for "not found".
\<close>

datatype item = Item (ident: nat) (key: string)

datatype error = MissingTimestamp

record queue =
  items :: "item list"
  timestampMap :: "item \<Rightarrow> int option"

definition makeQueue :: queue where
  "makeQueue = \<lparr>items = [], timestampMap = Map.empty\<rparr>"

text \<open>
  \<open>items[index]\<close>: reading outside the array gives \<open>undefined\<close>, here \<open>None\<close>.
\<close>

definition item_at :: "item list \<Rightarrow> int \<Rightarrow> item option" where
  "item_at xs i = (if 0 \<le> i \<and> i < int (length xs) then Some (xs ! nat i) else None)"

text \<open>
  \<open>timestampMap.get(items[index])\<close>, together with the item read: \<open>WeakMap.get\<close> of
  \<open>undefined\<close> is \<open>undefined\<close>, so a read outside the array has no timestamp either.
\<close>

definition entry_at :: "queue \<Rightarrow> int \<Rightarrow> (item \<times> int) option" where
  "entry_at q i =
     (case item_at (items q) i of
        None \<Rightarrow> None
      | Some it \<Rightarrow> (case timestampMap q it of None \<Rightarrow> None | Some t \<Rightarrow> Some (it, t)))"

text \<open>
  \<open>items.splice(start, 0, newItem)\<close> and \<open>items.splice(start, 1)\<close>, with the clamping
  of \<open>start\<close> that \<open>Array.prototype.splice\<close> does. The second also returns the removed
  element, if any.
\<close>

definition splice_start :: "item list \<Rightarrow> int \<Rightarrow> nat" where
  "splice_start xs start =
     (if start < 0 then nat (max (int (length xs) + start) 0)
      else nat (min start (int (length xs))))"

definition splice_insert :: "item list \<Rightarrow> int \<Rightarrow> item \<Rightarrow> item list" where
  "splice_insert xs start x =
     (let s = splice_start xs start in take s xs @ [x] @ drop s xs)"

definition splice_remove :: "item list \<Rightarrow> int \<Rightarrow> item option \<times> item list" where
  "splice_remove xs start =
     (let s = splice_start xs start
      in (if s < length xs then Some (xs ! s) else None, take s xs @ drop (Suc s) xs))"

subsection \<open>enqueue\<close>

text \<open>
  The \<open>while (endItemIndex >= 0)\<close> loop of \<open>enqueue\<close>. It returns the index at which
  the loop stops (the \<open>break\<close>, or \<open>-1\<close>), or the error thrown.
\<close>

function scan :: "queue \<Rightarrow> item \<Rightarrow> int \<Rightarrow> int \<Rightarrow> error + int" where
  "scan q newItem newItemTimestamp endItemIndex =
     (if endItemIndex \<ge> 0 then
        (case entry_at q endItemIndex of
           None \<Rightarrow> Inl MissingTimestamp
         | Some (endItem, endItemTimestamp) \<Rightarrow>
             if newItemTimestamp > endItemTimestamp \<or>
                (newItemTimestamp = endItemTimestamp \<and> key newItem > key endItem)
             then Inr endItemIndex
             else scan q newItem newItemTimestamp (endItemIndex - 1))
      else Inr endItemIndex)"
  by pat_completeness auto
termination
  by (relation "measure (\<lambda>(q, x, t, i). nat (i + 1))") auto

declare scan.simps [simp del]

text \<open>
  \<open>enqueue(newItem, timestamp = Date.now())\<close>. The argument \<open>now\<close> is what
  \<open>Date.now()\<close> returns when the default is evaluated; \<open>timestamp\<close> is \<open>None\<close> when
  the caller omits it. The result pairs the outcome with the state the call leaves.
\<close>

definition enqueue :: "int \<Rightarrow> item \<Rightarrow> int option \<Rightarrow> queue \<Rightarrow> (error + unit) \<times> queue" where
  "enqueue now newItem timestamp q =
     (let timestamp' = (case timestamp of None \<Rightarrow> now | Some t \<Rightarrow> t);
          newItemTimestamp = (case timestampMap q newItem of None \<Rightarrow> timestamp' | Some t \<Rightarrow> t)
      in case scan q newItem newItemTimestamp (int (length (items q)) - 1) of
           Inl e \<Rightarrow> (Inl e, q)
         | Inr endItemIndex \<Rightarrow>
             (Inr (),
              q\<lparr>items := splice_insert (items q) (endItemIndex + 1) newItem,
                timestampMap := (timestampMap q)(newItem \<mapsto> newItemTimestamp)\<rparr>))"

subsection \<open>dequeue\<close>

definition dequeue :: "queue \<Rightarrow> item option \<times> queue" where
  "dequeue q =
     (case items q of
        [] \<Rightarrow> (None, q)
      | item # rest \<Rightarrow>
          (Some item, q\<lparr>items := rest, timestampMap := (timestampMap q)(item := None)\<rparr>))"

subsection \<open>indexOfItemInQueue\<close>

text \<open>
  \<open>(l + r) >> 1\<close>: the shift first converts its operand to a signed 32-bit integer,
  then shifts arithmetically. On a sum below \<open>2^31\<close> it is the halving; from \<open>2^31\<close> on
  the operand wraps around.
\<close>

definition toInt32 :: "int \<Rightarrow> int" where
  "toInt32 n = (n + 2 ^ 31) mod 2 ^ 32 - 2 ^ 31"

definition shr1 :: "int \<Rightarrow> int" where
  "shr1 n = toInt32 n div 2"

definition direction :: "item \<Rightarrow> int \<Rightarrow> item \<Rightarrow> int \<Rightarrow> int" where
  "direction needleItem needleItemTimestamp haystackItem haystackItemTimestamp =
     (if needleItem = haystackItem then 0
      else if needleItemTimestamp - haystackItemTimestamp \<noteq> 0
        then needleItemTimestamp - haystackItemTimestamp
      else if key needleItem > key haystackItem then 1
      else - 1)"

text \<open>
  The \<open>while (l <= r)\<close> loop. With the wrap-around of \<open>>>\<close> the interval need not
  shrink, so the loop is a partial function: \<open>None\<close> stands for a loop that never
  returns.
\<close>

partial_function (option) bsearch :: "queue \<Rightarrow> item \<Rightarrow> int \<Rightarrow> int \<Rightarrow> int \<Rightarrow> (error + int) option" where
  "bsearch q needleItem needleItemTimestamp l r =
     (if l \<le> r then
        (let index = shr1 (l + r)
         in case entry_at q index of
              None \<Rightarrow> Some (Inl MissingTimestamp)
            | Some (haystackItem, haystackItemTimestamp) \<Rightarrow>
                (let d = direction needleItem needleItemTimestamp haystackItem haystackItemTimestamp
                 in if d > 0 then bsearch q needleItem needleItemTimestamp (index + 1) r
                    else if d < 0 then bsearch q needleItem needleItemTimestamp l (index - 1)
                    else Some (Inr index)))
      else Some (Inr (- 1)))"

declare bsearch.simps [code]

definition indexOfItemInQueue :: "queue \<Rightarrow> item \<Rightarrow> (error + int) option" where
  "indexOfItemInQueue q needleItem =
     (case timestampMap q needleItem of
        None \<Rightarrow> Some (Inr (- 1))
      | Some needleItemTimestamp \<Rightarrow>
          bsearch q needleItem needleItemTimestamp 0 (int (length (items q)) - 1))"

subsection \<open>remove, requeue, list\<close>

definition remove :: "item \<Rightarrow> queue \<Rightarrow> ((error + unit) \<times> queue) option" where
  "remove item q =
     (case indexOfItemInQueue q item of
        None \<Rightarrow> None
      | Some (Inl e) \<Rightarrow> Some (Inl e, q)
      | Some (Inr index) \<Rightarrow>
          if index \<ge> 0 then
            (case splice_remove (items q) index of
               (removed, rest) \<Rightarrow>
                 Some (Inr (),
                   q\<lparr>items := rest,
                     timestampMap :=
                       (case removed of
                          None \<Rightarrow> timestampMap q
                        | Some item' \<Rightarrow> (timestampMap q)(item' := None))\<rparr>))
          else Some (Inr (), q))"

text \<open>
  \<open>requeue(item, timestamp = Date.now())\<close>. It reads the clock for its own default
  (\<open>now\<close>), and its call \<open>queue.enqueue(item)\<close> omits the timestamp, so that call reads
  the clock again (\<open>now'\<close>). An error thrown by \<open>remove\<close> or by \<open>enqueue\<close> leaves the
  state as it is at that point.
\<close>

definition requeue :: "int \<Rightarrow> int \<Rightarrow> item \<Rightarrow> int option \<Rightarrow> queue \<Rightarrow> ((error + unit) \<times> queue) option" where
  "requeue now now' item timestamp q =
     (let timestamp' = (case timestamp of None \<Rightarrow> now | Some t \<Rightarrow> t)
      in case remove item q of
           None \<Rightarrow> None
         | Some (Inl e, q1) \<Rightarrow> Some (Inl e, q1)
         | Some (Inr u, q1) \<Rightarrow>
             Some (enqueue now' item None
                     (q1\<lparr>timestampMap := (timestampMap q1)(item \<mapsto> timestamp')\<rparr>)))"

definition list :: "queue \<Rightarrow> item list" where
  "list q = items q"


section \<open>The vocabulary of the specification\<close>

subsection \<open>The ordering rule and the sort invariant\<close>

text \<open>
  \<open>goes_after q newItem t endItem\<close> is the test at which the scan of \<open>enqueue\<close> stops:
  the new item, with timestamp \<open>t\<close>, orders strictly after \<open>endItem\<close>.
  \<open>in_order q a b\<close> is the relation the specification asks of adjacent items: both
  have a recorded timestamp and \<open>a\<close> orders before \<open>b\<close> or equal to it.
\<close>

definition goes_after :: "queue \<Rightarrow> item \<Rightarrow> int \<Rightarrow> item \<Rightarrow> bool" where
  "goes_after q newItem newItemTimestamp endItem =
     (case timestampMap q endItem of
        None \<Rightarrow> False
      | Some endItemTimestamp \<Rightarrow>
          newItemTimestamp > endItemTimestamp \<or>
          (newItemTimestamp = endItemTimestamp \<and> key newItem > key endItem))"

definition in_order :: "queue \<Rightarrow> item \<Rightarrow> item \<Rightarrow> bool" where
  "in_order q a b =
     (case timestampMap q a of
        None \<Rightarrow> False
      | Some ta \<Rightarrow>
          (case timestampMap q b of
             None \<Rightarrow> False
           | Some tb \<Rightarrow> ta < tb \<or> (ta = tb \<and> key a \<le> key b)))"

definition sort_invariant :: "queue \<Rightarrow> bool" where
  "sort_invariant q = successively (in_order q) (items q)"

definition all_timestamped :: "queue \<Rightarrow> bool" where
  "all_timestamped q = list_all (\<lambda>y. timestampMap q y \<noteq> None) (items q)"

text \<open>
  A queue is well formed when no object is in the sequence twice, the association holds
  exactly the items of the sequence, and the sequence is sorted. An item is unrivalled
  when no other item of the sequence has both its key and its recorded timestamp.
\<close>

definition well_formed :: "queue \<Rightarrow> bool" where
  "well_formed q \<longleftrightarrow>
     distinct (items q) \<and> dom (timestampMap q) = set (items q) \<and> sort_invariant q"

definition unrivalled :: "queue \<Rightarrow> item \<Rightarrow> bool" where
  "unrivalled q x \<longleftrightarrow>
     list_all (\<lambda>y. y = x \<or> key y \<noteq> key x \<or> timestampMap q y \<noteq> timestampMap q x) (items q)"

text \<open>
  The binary search adds \<open>l + r\<close> and shifts; up to \<open>2^30\<close> items the sum stays below
  \<open>2^31\<close>.
\<close>

definition int32_safe :: "queue \<Rightarrow> bool" where
  "int32_safe q \<longleftrightarrow> length (items q) \<le> 2 ^ 30"

subsection \<open>The effect of a successful enqueue\<close>

text \<open>
  The timestamp \<open>enqueue\<close> orders the new item by, and the state after inserting \<open>x\<close>
  at position \<open>p\<close> with timestamp \<open>t\<close>.
\<close>

definition new_timestamp :: "queue \<Rightarrow> int \<Rightarrow> item \<Rightarrow> int option \<Rightarrow> int" where
  "new_timestamp q now x t =
     (case timestampMap q x of
        Some recorded \<Rightarrow> recorded
      | None \<Rightarrow> (case t of Some supplied \<Rightarrow> supplied | None \<Rightarrow> now))"

definition inserted :: "queue \<Rightarrow> nat \<Rightarrow> item \<Rightarrow> int \<Rightarrow> queue" where
  "inserted q p x t =
     q\<lparr>items := take p (items q) @ [x] @ drop p (items q),
       timestampMap := (timestampMap q)(x \<mapsto> t)\<rparr>"

text \<open>
  \<open>enqueue_orders_by now x t q T\<close>: the call \<open>enqueue(x, t)\<close> returns normally, records
  \<open>T\<close> for \<open>x\<close>, and inserts \<open>x\<close> where the scan with timestamp \<open>T\<close> stops.
\<close>

definition enqueue_orders_by :: "int \<Rightarrow> item \<Rightarrow> int option \<Rightarrow> queue \<Rightarrow> int \<Rightarrow> bool" where
  "enqueue_orders_by now x t q T \<longleftrightarrow>
     (\<exists>p\<le>length (items q).
        enqueue now x t q = (Inr (), inserted q p x T) \<and>
        timestampMap (snd (enqueue now x t q)) x = Some T \<and>
        (0 < p \<longrightarrow> goes_after q x T (items q ! (p - 1))) \<and>
        (\<forall>j. p \<le> j \<and> j < length (items q) \<longrightarrow> \<not> goes_after q x T (items q ! j)))"

subsection \<open>The effect of a removal\<close>

text \<open>
  The state after splicing out index \<open>i\<close> and deleting its item's timestamp, and the
  state after taking item \<open>x\<close> out of the queue.
\<close>

definition deleted :: "queue \<Rightarrow> nat \<Rightarrow> queue" where
  "deleted q i =
     q\<lparr>items := take i (items q) @ drop (Suc i) (items q),
       timestampMap := (timestampMap q)(items q ! i := None)\<rparr>"

definition withdrawn :: "queue \<Rightarrow> item \<Rightarrow> queue" where
  "withdrawn q x =
     q\<lparr>items := remove1 x (items q), timestampMap := (timestampMap q)(x := None)\<rparr>"

text \<open>
  The state after recording timestamp \<open>t\<close> for \<open>x\<close>, as \<open>requeue\<close> does between
  its \<open>remove\<close> and its \<open>enqueue\<close>.
\<close>

definition stamped :: "queue \<Rightarrow> item \<Rightarrow> int \<Rightarrow> queue" where
  "stamped q x t = q\<lparr>timestampMap := (timestampMap q)(x \<mapsto> t)\<rparr>"

subsection \<open>Sequences of calls\<close>

text \<open>
  A call of the interface, and the two readings of the clock it may take (\<open>requeue\<close>
  reads it for its own default and again inside its call of \<open>enqueue\<close>). \<open>perform\<close>
  gives the outcome of a call, normal return or the error thrown, and the state the call
  leaves; \<open>None\<close> if it does not return. \<open>run\<close> performs a list of calls in order,
  going on after a call that throws, as a caller that catches the error would.
  \<open>completes\<close> says that every call of the list returns normally.
\<close>

datatype call = Enqueue item "int option" | Dequeue | Requeue item "int option" | Remove item

fun perform :: "int \<times> int \<Rightarrow> call \<Rightarrow> queue \<Rightarrow> ((error + unit) \<times> queue) option" where
  "perform (now, now') (Enqueue x t) q = Some (enqueue now x t q)"
| "perform (now, now') Dequeue q = Some (Inr (), snd (dequeue q))"
| "perform (now, now') (Requeue x t) q = requeue now now' x t q"
| "perform (now, now') (Remove x) q = remove x q"

fun run :: "((int \<times> int) \<times> call) list \<Rightarrow> queue \<Rightarrow> queue option" where
  "run [] q = Some q"
| "run ((clock, c) # cs) q =
     (case perform clock c q of None \<Rightarrow> None | Some (outcome, q') \<Rightarrow> run cs q')"

fun completes :: "((int \<times> int) \<times> call) list \<Rightarrow> queue \<Rightarrow> bool" where
  "completes [] q = True"
| "completes ((clock, c) # cs) q =
     (case perform clock c q of
        None \<Rightarrow> False
      | Some (Inl e, q') \<Rightarrow> False
      | Some (Inr u, q') \<Rightarrow> completes cs q')"

text \<open>
  The use under which the queue keeps its invariant: \<open>enqueue\<close> is not given an item
  that is in the queue already, and \<open>requeue\<close> is not given an item that shares both
  key and recorded timestamp with another item of the queue. \<open>remove\<close> and
  \<open>requeue\<close> search, so they are called on at most \<open>2^30\<close> items.
\<close>

fun proper_use :: "call \<Rightarrow> queue \<Rightarrow> bool" where
  "proper_use (Enqueue x t) q = (x \<notin> set (items q))"
| "proper_use Dequeue q = True"
| "proper_use (Requeue x t) q = (unrivalled q x \<and> int32_safe q)"
| "proper_use (Remove x) q = int32_safe q"

fun proper_run :: "((int \<times> int) \<times> call) list \<Rightarrow> queue \<Rightarrow> bool" where
  "proper_run [] q = True"
| "proper_run ((clock, c) # cs) q =
     (proper_use c q \<and>
      (case perform clock c q of None \<Rightarrow> True | Some (outcome, q') \<Rightarrow> proper_run cs q'))"

subsection \<open>The items a loop reaches\<close>

text \<open>
  The scan of \<open>enqueue\<close> reaches index \<open>i\<close> when every item behind it has a timestamp
  and does not stop the scan. The binary search from the interval \<open>l..r\<close> reaches the
  midpoint, and what the search from the interval it continues with reaches.
\<close>

definition scan_reaches :: "queue \<Rightarrow> item \<Rightarrow> int \<Rightarrow> nat \<Rightarrow> bool" where
  "scan_reaches q x t i \<longleftrightarrow>
     i < length (items q) \<and>
     list_all (\<lambda>y. timestampMap q y \<noteq> None \<and> \<not> goes_after q x t y) (drop (Suc i) (items q))"

inductive search_reaches :: "queue \<Rightarrow> item \<Rightarrow> int \<Rightarrow> int \<Rightarrow> int \<Rightarrow> int \<Rightarrow> bool"
  for q :: queue and needleItem :: item and needleItemTimestamp :: int where
  midpoint: "l \<le> r \<Longrightarrow> search_reaches q needleItem needleItemTimestamp l r (shr1 (l + r))"
| higher: "l \<le> r \<Longrightarrow> entry_at q (shr1 (l + r)) = Some (h, ht) \<Longrightarrow>
     direction needleItem needleItemTimestamp h ht > 0 \<Longrightarrow>
     search_reaches q needleItem needleItemTimestamp (shr1 (l + r) + 1) r i \<Longrightarrow>
     search_reaches q needleItem needleItemTimestamp l r i"
| lower: "l \<le> r \<Longrightarrow> entry_at q (shr1 (l + r)) = Some (h, ht) \<Longrightarrow>
     direction needleItem needleItemTimestamp h ht < 0 \<Longrightarrow>
     search_reaches q needleItem needleItemTimestamp l (shr1 (l + r) - 1) i \<Longrightarrow>
     search_reaches q needleItem needleItemTimestamp l r i"

subsection \<open>Example items and queues\<close>

text \<open>
  \<open>itemA\<close> and \<open>itemC\<close> are different objects with the same key, and so are the
  twins. \<open>timestamps\<close> lists the recorded timestamps along the sequence.
\<close>

definition itemA :: item where "itemA = Item 1 ''a''"
definition itemB :: item where "itemB = Item 2 ''b''"
definition itemC :: item where "itemC = Item 3 ''a''"
definition twin1 :: item where "twin1 = Item 4 ''k''"
definition twin2 :: item where "twin2 = Item 5 ''k''"
definition itemD :: item where "itemD = Item 6 ''d''"
definition stranger :: item where "stranger = Item 9 ''x''"

definition timestamps :: "queue \<Rightarrow> int option list" where
  "timestamps q = map (timestampMap q) (items q)"

definition two_items :: queue where
  "two_items = \<lparr>items = [itemA, itemB], timestampMap = [itemA \<mapsto> 100, itemB \<mapsto> 200]\<rparr>"

definition stale_queue :: queue where
  "stale_queue = \<lparr>items = [itemA, itemB], timestampMap = [itemB \<mapsto> 200]\<rparr>"

definition stale_queue' :: queue where
  "stale_queue' =
     \<lparr>items = [itemA, itemB], timestampMap = [itemB \<mapsto> 200, stranger \<mapsto> 5]\<rparr>"

definition stale_three :: queue where
  "stale_three =
     \<lparr>items = [itemA, itemB, itemD], timestampMap = [itemB \<mapsto> 200, itemD \<mapsto> 300]\<rparr>"

definition twins_queue :: queue where
  "twins_queue = \<lparr>items = [twin1, twin2], timestampMap = [twin1 \<mapsto> 100, twin2 \<mapsto> 100]\<rparr>"

section \<open>The scan of enqueue\<close>

lemma item_at_nth: "0 \<le> i \<Longrightarrow> i < int (length xs) \<Longrightarrow> item_at xs i = Some (xs ! nat i)"
  by (simp add: item_at_def)

lemma all_timestamped_nth:
  "all_timestamped q \<Longrightarrow> i < length (items q) \<Longrightarrow> \<exists>t. timestampMap q (items q ! i) = Some t"
  by (auto simp: all_timestamped_def list_all_length)

lemma entry_at_timestamped:
  assumes "all_timestamped q" "0 \<le> i" "i < int (length (items q))"
  shows "\<exists>t. timestampMap q (items q ! nat i) = Some t \<and> entry_at q i = Some (items q ! nat i, t)"
proof -
  from assms have "nat i < length (items q)" by simp
  from all_timestamped_nth[OF assms(1) this] obtain t
    where "timestampMap q (items q ! nat i) = Some t" by blast
  then show ?thesis using assms by (simp add: entry_at_def item_at_nth)
qed

lemma scan_result:
  "all_timestamped q \<Longrightarrow> - 1 \<le> i \<Longrightarrow> i < int (length (items q)) \<Longrightarrow>
    \<exists>k. scan q x t i = Inr k \<and> - 1 \<le> k \<and> k \<le> i \<and>
        (0 \<le> k \<longrightarrow> goes_after q x t (items q ! nat k)) \<and>
        (\<forall>j. k < j \<and> j \<le> i \<longrightarrow> \<not> goes_after q x t (items q ! nat j))"
proof (induction q x t i rule: scan.induct)
  case (1 q x t i)
  show ?case
  proof (cases "0 \<le> i")
    case False
    with "1.prems" have "i = - 1" by simp
    then have "scan q x t i = Inr (- 1)" by (subst scan.simps) simp
    then show ?thesis using \<open>i = - 1\<close> by auto
  next
    case True
    from entry_at_timestamped[OF "1.prems"(1) True "1.prems"(3)] obtain u where
      u: "timestampMap q (items q ! nat i) = Some u" "entry_at q i = Some (items q ! nat i, u)"
      by blast
    show ?thesis
    proof (cases "t > u \<or> (t = u \<and> key x > key (items q ! nat i))")
      case stop: True
      then have "scan q x t i = Inr i" using True u by (subst scan.simps) simp
      moreover have "goes_after q x t (items q ! nat i)" using stop u by (simp add: goes_after_def)
      ultimately show ?thesis using True by auto
    next
      case go: False
      then have eq: "scan q x t i = scan q x t (i - 1)" using True u by (subst scan.simps) auto
      have ng: "\<not> goes_after q x t (items q ! nat i)" using go u by (simp add: goes_after_def)
      from "1.IH"[OF True u(2) refl go "1.prems"(1)] "1.prems" True
      obtain k where k: "scan q x t (i - 1) = Inr k" "- 1 \<le> k" "k \<le> i - 1"
        "0 \<le> k \<longrightarrow> goes_after q x t (items q ! nat k)"
        "\<forall>j. k < j \<and> j \<le> i - 1 \<longrightarrow> \<not> goes_after q x t (items q ! nat j)"
        by auto
      have "\<forall>j. k < j \<and> j \<le> i \<longrightarrow> \<not> goes_after q x t (items q ! nat j)"
      proof (intro allI impI)
        fix j assume "k < j \<and> j \<le> i"
        then have "j \<le> i - 1 \<or> j = i" by auto
        then show "\<not> goes_after q x t (items q ! nat j)" using k(5) ng \<open>k < j \<and> j \<le> i\<close> by auto
      qed
      with k eq show ?thesis by auto
    qed
  qed
qed


lemma splice_insert_in_range:
  "0 \<le> s \<Longrightarrow> s \<le> int (length xs) \<Longrightarrow> splice_insert xs s x = take (nat s) xs @ [x] @ drop (nat s) xs"
  by (simp add: splice_insert_def splice_start_def min_def Let_def)

lemma enqueue_scan:
  assumes "scan q x (new_timestamp q now x t) (int (length (items q)) - 1) = Inr k"
    and "- 1 \<le> k" and "k < int (length (items q))"
  shows "enqueue now x t q = (Inr (), inserted q (nat (k + 1)) x (new_timestamp q now x t))"
proof -
  have "(case timestampMap q x of None \<Rightarrow> (case t of None \<Rightarrow> now | Some s \<Rightarrow> s) | Some r \<Rightarrow> r)
      = new_timestamp q now x t"
    by (simp add: new_timestamp_def split: option.splits)
  then show ?thesis
    using assms by (simp add: enqueue_def inserted_def splice_insert_in_range)
qed

lemma enqueue_position:
  assumes "all_timestamped q"
  shows "\<exists>p\<le>length (items q).
           scan q x (new_timestamp q now x t) (int (length (items q)) - 1) = Inr (int p - 1) \<and>
           enqueue now x t q = (Inr (), inserted q p x (new_timestamp q now x t)) \<and>
           (0 < p \<longrightarrow> goes_after q x (new_timestamp q now x t) (items q ! (p - 1))) \<and>
           (\<forall>j. p \<le> j \<and> j < length (items q) \<longrightarrow>
                \<not> goes_after q x (new_timestamp q now x t) (items q ! j))"
proof -
  let ?t = "new_timestamp q now x t"
  let ?n = "int (length (items q))"
  from scan_result[OF assms, of "?n - 1" x ?t]
  obtain k where k: "scan q x ?t (?n - 1) = Inr k" "- 1 \<le> k" "k \<le> ?n - 1"
    "0 \<le> k \<longrightarrow> goes_after q x ?t (items q ! nat k)"
    "\<forall>j. k < j \<and> j \<le> ?n - 1 \<longrightarrow> \<not> goes_after q x ?t (items q ! nat j)"
    by auto
  let ?p = "nat (k + 1)"
  have p: "int ?p - 1 = k" "?p \<le> length (items q)" using k(2,3) by auto
  have e: "enqueue now x t q = (Inr (), inserted q ?p x ?t)"
    using enqueue_scan[OF k(1)] k(2,3) by simp
  have b: "0 < ?p \<longrightarrow> goes_after q x ?t (items q ! (?p - 1))"
  proof
    assume "0 < ?p"
    then have "0 \<le> k" "?p - 1 = nat k" by auto
    then show "goes_after q x ?t (items q ! (?p - 1))" using k(4) by simp
  qed
  have a: "\<forall>j. ?p \<le> j \<and> j < length (items q) \<longrightarrow> \<not> goes_after q x ?t (items q ! j)"
  proof (intro allI impI)
    fix j assume "?p \<le> j \<and> j < length (items q)"
    then have "k < int j \<and> int j \<le> ?n - 1" by auto
    with k(5) have "\<not> goes_after q x ?t (items q ! nat (int j))" by blast
    then show "\<not> goes_after q x ?t (items q ! j)" by simp
  qed
  show ?thesis using p k(1) e a b by (intro exI[of _ ?p]) simp
qed


section \<open>Sortedness\<close>

lemma in_order_trans: "in_order q a b \<Longrightarrow> in_order q b c \<Longrightarrow> in_order q a c"
  by (auto simp: in_order_def split: option.splits)

lemma transp_in_order: "transp (in_order q)"
  by (rule transpI) (rule in_order_trans)

lemma sort_invariant_sorted_wrt: "sort_invariant q = sorted_wrt (in_order q) (items q)"
  unfolding sort_invariant_def by (rule successively_conv_sorted_wrt[OF transp_in_order])

lemma sort_invariant_nth:
  "sort_invariant q \<Longrightarrow> j < k \<Longrightarrow> k < length (items q) \<Longrightarrow> in_order q (items q ! j) (items q ! k)"
  by (simp add: sort_invariant_sorted_wrt sorted_wrt_iff_nth_less)

lemma in_order_goes_after:
  "in_order q a b \<Longrightarrow> goes_after q x t b \<Longrightarrow> goes_after q x t a"
  by (auto simp: in_order_def goes_after_def split: option.splits)

lemma goes_after_in_order:
  "goes_after q x t a \<Longrightarrow> in_order (q\<lparr>items := xs, timestampMap := (timestampMap q)(x \<mapsto> t)\<rparr>) a x"
  by (auto simp: in_order_def goes_after_def split: option.splits)

lemma not_goes_after_in_order:
  "\<not> goes_after q x t b \<Longrightarrow> timestampMap q b \<noteq> None \<Longrightarrow>
   in_order (q\<lparr>items := xs, timestampMap := (timestampMap q)(x \<mapsto> t)\<rparr>) x b"
  by (auto simp: in_order_def goes_after_def split: option.splits)

lemma new_timestamp_recorded:
  "timestampMap q x \<noteq> None \<Longrightarrow> (timestampMap q)(x \<mapsto> new_timestamp q now x t) = timestampMap q"
  by (auto simp: new_timestamp_def fun_eq_iff)

lemma in_order_inserted:
  assumes "all_timestamped q" "a \<in> set (items q)" "b \<in> set (items q)"
  shows "in_order (inserted q p x (new_timestamp q now x t)) a b = in_order q a b"
proof (cases "x \<in> set (items q)")
  case True
  with assms(1) have "timestampMap q x \<noteq> None" by (simp add: all_timestamped_def list_all_iff)
  then have tm: "timestampMap (inserted q p x (new_timestamp q now x t)) = timestampMap q"
    by (simp add: inserted_def new_timestamp_recorded)
  show ?thesis unfolding in_order_def tm by (rule refl)
next
  case False
  with assms have "a \<noteq> x" "b \<noteq> x" by auto
  then have tm: "timestampMap (inserted q p x (new_timestamp q now x t)) a = timestampMap q a"
    "timestampMap (inserted q p x (new_timestamp q now x t)) b = timestampMap q b"
    by (simp_all add: inserted_def)
  show ?thesis unfolding in_order_def tm by (rule refl)
qed

lemma successively_take: "successively P xs \<Longrightarrow> successively P (take n xs)"
  using successively_append_iff[of P "take n xs" "drop n xs"] by simp

lemma successively_drop: "successively P xs \<Longrightarrow> successively P (drop n xs)"
  using successively_append_iff[of P "take n xs" "drop n xs"] by simp

lemma inserted_sorted:
  assumes s: "sort_invariant q" and a: "all_timestamped q" and p: "p \<le> length (items q)"
    and before: "0 < p \<longrightarrow> goes_after q x (new_timestamp q now x t) (items q ! (p - 1))"
    and after: "\<forall>j. p \<le> j \<and> j < length (items q) \<longrightarrow>
                  \<not> goes_after q x (new_timestamp q now x t) (items q ! j)"
  shows "sort_invariant (inserted q p x (new_timestamp q now x t))"
proof -
  let ?t = "new_timestamp q now x t"
  let ?q = "inserted q p x ?t"
  let ?xs = "items q"
  have old: "successively (in_order ?q) ?xs"
    using s in_order_inserted[OF a] unfolding sort_invariant_def
    by (simp cong: successively_cong)
  have l: "take p ?xs \<noteq> [] \<Longrightarrow> in_order ?q (last (take p ?xs)) x"
  proof -
    assume "take p ?xs \<noteq> []"
    then have "0 < p" by auto
    then have "last (take p ?xs) = ?xs ! (p - 1)"
      using p \<open>take p ?xs \<noteq> []\<close> by (simp add: last_conv_nth min_def)
    then show ?thesis using before \<open>0 < p\<close> goes_after_in_order[of q x ?t] 
      by (simp add: inserted_def)
  qed
  have r: "drop p ?xs \<noteq> [] \<Longrightarrow> in_order ?q x (hd (drop p ?xs))"
  proof -
    assume "drop p ?xs \<noteq> []"
    then have lt: "p < length ?xs" by auto
    then have h: "hd (drop p ?xs) = ?xs ! p" by (simp add: hd_drop_conv_nth)
    from all_timestamped_nth[OF a lt] have "timestampMap q (?xs ! p) \<noteq> None" by auto
    moreover have "\<not> goes_after q x ?t (?xs ! p)" using after lt by simp
    ultimately show ?thesis using not_goes_after_in_order[of q x ?t "?xs ! p"] h
      by (simp add: inserted_def)
  qed
  have "successively (in_order ?q) (take p ?xs @ [x] @ drop p ?xs)"
    using successively_take[OF old, of p] successively_drop[OF old, of p] l r
    by (auto simp: successively_append_iff successively_Cons)
  then show ?thesis by (simp add: sort_invariant_def inserted_def)
qed

lemma inserted_all_timestamped:
  "all_timestamped q \<Longrightarrow> all_timestamped (inserted q p x t)"
  by (auto simp: all_timestamped_def inserted_def list_all_iff dest: in_set_takeD in_set_dropD)

lemma before_insertion_point:
  assumes s: "sort_invariant q" and p: "p \<le> length (items q)" "0 < p"
    and before: "goes_after q x t (items q ! (p - 1))" and j: "j < p"
  shows "goes_after q x t (items q ! j)"
proof (cases "j = p - 1")
  case True
  then show ?thesis using before by simp
next
  case False
  then have "j < p - 1" "p - 1 < length (items q)" using j p by auto
  from sort_invariant_nth[OF s this] before show ?thesis by (rule in_order_goes_after)
qed

section \<open>The binary search\<close>

lemma shr1_half: "0 \<le> n \<Longrightarrow> n < 2 ^ 31 \<Longrightarrow> shr1 n = n div 2"
  by (simp add: shr1_def toInt32_def)

lemma midpoint_in_range:
  assumes "int32_safe q" "0 \<le> l" "l \<le> r" "r < int (length (items q))"
  shows "shr1 (l + r) = (l + r) div 2" "l \<le> shr1 (l + r)" "shr1 (l + r) \<le> r"
proof -
  have "int (length (items q)) \<le> 2 ^ 30" using assms(1) by (simp add: int32_safe_def)
  then have "l + r < 2 ^ 31" using assms by simp
  then show "shr1 (l + r) = (l + r) div 2" using assms by (simp add: shr1_half)
  then show "l \<le> shr1 (l + r)" "shr1 (l + r) \<le> r" using assms by auto
qed

lemma bsearch_hit:
  "l \<le> r \<Longrightarrow> entry_at q (shr1 (l + r)) = Some (x, u) \<Longrightarrow> bsearch q x t l r = Some (Inr (shr1 (l + r)))"
  by (subst bsearch.simps) (simp add: direction_def)

lemma bsearch_higher:
  "l \<le> r \<Longrightarrow> entry_at q (shr1 (l + r)) = Some (h, u) \<Longrightarrow> direction x t h u > 0 \<Longrightarrow>
   bsearch q x t l r = bsearch q x t (shr1 (l + r) + 1) r"
  by (subst bsearch.simps) simp

lemma bsearch_lower:
  "l \<le> r \<Longrightarrow> entry_at q (shr1 (l + r)) = Some (h, u) \<Longrightarrow> direction x t h u < 0 \<Longrightarrow>
   bsearch q x t l r = bsearch q x t l (shr1 (l + r) - 1)"
  by (subst bsearch.simps) simp

lemma bsearch_missing:
  "l \<le> r \<Longrightarrow> entry_at q (shr1 (l + r)) = None \<Longrightarrow> bsearch q x t l r = Some (Inl MissingTimestamp)"
  by (subst bsearch.simps) simp

lemma bsearch_empty: "r < l \<Longrightarrow> bsearch q x t l r = Some (Inr (- 1))"
  by (subst bsearch.simps) simp

lemma direction_zero: "direction x t h u = 0 \<Longrightarrow> h = x"
  by (auto simp: direction_def split: if_splits)

text \<open>
  On a sequence whose items all have timestamps the search returns, without an error:
  not-found, or an index that holds the needle.
\<close>

lemma bsearch_returns:
  assumes "all_timestamped q" "int32_safe q"
  shows "0 \<le> l \<Longrightarrow> r < int (length (items q)) \<Longrightarrow>
    \<exists>k. bsearch q x t l r = Some (Inr k) \<and>
        (k = - 1 \<or> (l \<le> k \<and> k \<le> r \<and> items q ! nat k = x))"
proof (induction "nat (r - l + 1)" arbitrary: l r rule: less_induct)
  case less
  show ?case
  proof (cases "l \<le> r")
    case False
    then show ?thesis by (simp add: bsearch_empty)
  next
    case True
    let ?m = "shr1 (l + r)"
    from midpoint_in_range[OF assms(2) less.prems(1) True less.prems(2)]
    have m: "l \<le> ?m" "?m \<le> r" by auto
    then have "0 \<le> ?m" "?m < int (length (items q))" using less.prems by auto
    from entry_at_timestamped[OF assms(1) this] obtain u where
      u: "entry_at q ?m = Some (items q ! nat ?m, u)" by blast
    let ?d = "direction x t (items q ! nat ?m) u"
    consider "?d > 0" | "?d < 0" | "?d = 0" by linarith
    then show ?thesis
    proof cases
      case 1
      have "nat (r - (?m + 1) + 1) < nat (r - l + 1)" using m by auto
      from less.hyps[OF this] less.prems m
      obtain k where "bsearch q x t (?m + 1) r = Some (Inr k)"
        "k = - 1 \<or> (?m + 1 \<le> k \<and> k \<le> r \<and> items q ! nat k = x)" by auto
      then show ?thesis using bsearch_higher[OF True u 1] m by auto
    next
      case 2
      have "nat (?m - 1 - l + 1) < nat (r - l + 1)" using m by auto
      from less.hyps[OF this] less.prems m
      obtain k where "bsearch q x t l (?m - 1) = Some (Inr k)"
        "k = - 1 \<or> (l \<le> k \<and> k \<le> ?m - 1 \<and> items q ! nat k = x)" by auto
      then show ?thesis using bsearch_lower[OF True u 2] m by auto
    next
      case 3
      then have "items q ! nat ?m = x" by (rule direction_zero)
      then show ?thesis using bsearch_hit[OF True, of q x u t] u m by auto
    qed
  qed
qed

section \<open>The search for a queued item\<close>

lemma well_formed_all_timestamped: "well_formed q \<Longrightarrow> all_timestamped q"
  by (auto simp: well_formed_def all_timestamped_def list_all_iff)

lemma well_formed_absent: "well_formed q \<Longrightarrow> x \<notin> set (items q) \<Longrightarrow> timestampMap q x = None"
  by (auto simp: well_formed_def)

lemma well_formed_distinct: "well_formed q \<Longrightarrow> distinct (items q)"
  by (simp add: well_formed_def)

lemma unrivalled_nth:
  "unrivalled q x \<Longrightarrow> j < length (items q) \<Longrightarrow> items q ! j \<noteq> x \<Longrightarrow>
   key (items q ! j) \<noteq> key x \<or> timestampMap q (items q ! j) \<noteq> timestampMap q x"
  by (auto simp: unrivalled_def list_all_length)

lemma distinct_keys_unrivalled:
  "distinct (map key (items q)) \<Longrightarrow> x \<in> set (items q) \<Longrightarrow> unrivalled q x"
  by (auto simp: unrivalled_def list_all_iff distinct_map inj_on_def)

lemma unrivalled_direction:
  assumes s: "sort_invariant q" and u: "unrivalled q x" and jk: "j < k" "k < length (items q)"
    and tj: "timestampMap q (items q ! j) = Some tj"
    and tk: "timestampMap q (items q ! k) = Some tk"
  shows "items q ! k = x \<Longrightarrow> items q ! j \<noteq> x \<Longrightarrow> direction x tk (items q ! j) tj > 0"
    and "items q ! j = x \<Longrightarrow> items q ! k \<noteq> x \<Longrightarrow> direction x tj (items q ! k) tk < 0"
proof -
  from sort_invariant_nth[OF s jk] tj tk
  have o: "tj < tk \<or> (tj = tk \<and> key (items q ! j) \<le> key (items q ! k))"
    by (simp add: in_order_def)
  show "direction x tk (items q ! j) tj > 0" if "items q ! k = x" "items q ! j \<noteq> x"
  proof -
    have "j < length (items q)" using jk by simp
    from unrivalled_nth[OF u this that(2)] tj tk that(1)
    have "key (items q ! j) \<noteq> key x \<or> tj \<noteq> tk" by auto
    with o that show ?thesis by (auto simp: direction_def)
  qed
  show "direction x tj (items q ! k) tk < 0" if "items q ! j = x" "items q ! k \<noteq> x"
  proof -
    from unrivalled_nth[OF u jk(2) that(2)] tj tk that(1)
    have "key (items q ! k) \<noteq> key x \<or> tk \<noteq> tj" by auto
    with o that show ?thesis by (auto simp: direction_def)
  qed
qed

lemma bsearch_finds:
  assumes s: "sort_invariant q" and a: "all_timestamped q" and u: "unrivalled q x"
    and b: "int32_safe q" and i: "i < length (items q)" "items q ! i = x"
    and t: "timestampMap q x = Some t"
  shows "0 \<le> l \<Longrightarrow> l \<le> int i \<Longrightarrow> int i \<le> r \<Longrightarrow> r < int (length (items q)) \<Longrightarrow>
    \<exists>k. bsearch q x t l r = Some (Inr k) \<and> 0 \<le> k \<and> k < int (length (items q)) \<and>
        items q ! nat k = x"
proof (induction "nat (r - l + 1)" arbitrary: l r rule: less_induct)
  case less
  let ?m = "shr1 (l + r)"
  have lr: "l \<le> r" using less.prems by simp
  from midpoint_in_range[OF b less.prems(1) lr less.prems(4)]
  have m: "l \<le> ?m" "?m \<le> r" by auto
  then have m': "0 \<le> ?m" "?m < int (length (items q))" using less.prems by auto
  from entry_at_timestamped[OF a this] obtain v where
    v: "timestampMap q (items q ! nat ?m) = Some v" "entry_at q ?m = Some (items q ! nat ?m, v)"
    by blast
  have ti: "timestampMap q (items q ! i) = Some t" using i(2) t by simp
  have ml: "nat ?m < length (items q)" using m' by auto
  show ?case
  proof (cases "items q ! nat ?m = x")
    case True
    then have "bsearch q x t l r = Some (Inr ?m)" using bsearch_hit[OF lr, of q x v t] v(2) by simp
    with True m' show ?thesis by auto
  next
    case False
    then have "nat ?m \<noteq> i" using i(2) by auto
    then consider "nat ?m < i" | "i < nat ?m" by linarith
    then show ?thesis
    proof cases
      case 1
      from unrivalled_direction(1)[OF s u 1 i(1) v(1) ti i(2) False]
      have d: "direction x t (items q ! nat ?m) v > 0" .
      have "nat (r - (?m + 1) + 1) < nat (r - l + 1)" using m by auto
      from less.hyps[OF this] less.prems m m' 1
      have "\<exists>k. bsearch q x t (?m + 1) r = Some (Inr k) \<and> 0 \<le> k \<and>
          k < int (length (items q)) \<and> items q ! nat k = x" by auto
      then show ?thesis using bsearch_higher[OF lr v(2) d] by simp
    next
      case 2
      from unrivalled_direction(2)[OF s u 2 ml ti v(1) i(2) False]
      have d: "direction x t (items q ! nat ?m) v < 0" .
      have "nat (?m - 1 - l + 1) < nat (r - l + 1)" using m by auto
      from less.hyps[OF this] less.prems m m' 2
      have "\<exists>k. bsearch q x t l (?m - 1) = Some (Inr k) \<and> 0 \<le> k \<and>
          k < int (length (items q)) \<and> items q ! nat k = x" by auto
      then show ?thesis using bsearch_lower[OF lr v(2) d] by simp
    qed
  qed
qed

lemma locate_untimestamped: "timestampMap q x = None \<Longrightarrow> indexOfItemInQueue q x = Some (Inr (- 1))"
  by (simp add: indexOfItemInQueue_def)

lemma locate_returns:
  assumes "all_timestamped q" "int32_safe q"
  shows "\<exists>k. indexOfItemInQueue q x = Some (Inr k) \<and>
           (k = - 1 \<or> (0 \<le> k \<and> k < int (length (items q)) \<and> items q ! nat k = x))"
proof (cases "timestampMap q x")
  case None
  then show ?thesis by (simp add: locate_untimestamped)
next
  case (Some t)
  from bsearch_returns[OF assms, of 0 "int (length (items q)) - 1" x t]
  show ?thesis by (auto simp: indexOfItemInQueue_def Some)
qed

lemma locate_queued:
  assumes s: "sort_invariant q" and a: "all_timestamped q" and u: "unrivalled q x"
    and b: "int32_safe q" and x: "x \<in> set (items q)"
  shows "\<exists>k<length (items q). indexOfItemInQueue q x = Some (Inr (int k)) \<and> items q ! k = x"
proof -
  from x obtain i where i: "i < length (items q)" "items q ! i = x"
    by (auto simp: in_set_conv_nth)
  from all_timestamped_nth[OF a i(1)] i(2) obtain t where t: "timestampMap q x = Some t" by auto
  from bsearch_finds[OF s a u b i t, of 0 "int (length (items q)) - 1"] i(1)
  obtain k where k: "bsearch q x t 0 (int (length (items q)) - 1) = Some (Inr k)"
    "0 \<le> k" "k < int (length (items q))" "items q ! nat k = x" by auto
  then have "indexOfItemInQueue q x = Some (Inr (int (nat k)))"
    by (simp add: indexOfItemInQueue_def t)
  with k show ?thesis by (intro exI[of _ "nat k"]) auto
qed

lemma locate_present:
  assumes w: "well_formed q" and b: "int32_safe q" and d: "distinct (map key (items q))"
    and i: "i < length (items q)"
  shows "indexOfItemInQueue q (items q ! i) = Some (Inr (int i))"
proof -
  let ?x = "items q ! i"
  have x: "?x \<in> set (items q)" using i by simp
  have s: "sort_invariant q" using w by (simp add: well_formed_def)
  from locate_queued[OF s well_formed_all_timestamped[OF w] distinct_keys_unrivalled[OF d x] b x]
  obtain k where k: "k < length (items q)" "indexOfItemInQueue q ?x = Some (Inr (int k))"
    "items q ! k = ?x" by blast
  from k(1,3) i well_formed_distinct[OF w] have "k = i" by (simp add: nth_eq_iff_index_eq)
  with k(2) show ?thesis by simp
qed

section \<open>The operations on a well-formed queue\<close>

lemma splice_remove_in_range:
  "i < length xs \<Longrightarrow> splice_remove xs (int i) = (Some (xs ! i), take i xs @ drop (Suc i) xs)"
  by (simp add: splice_remove_def splice_start_def Let_def min_def)

lemma remove_not_found: "indexOfItemInQueue q x = Some (Inr (- 1)) \<Longrightarrow> remove x q = Some (Inr (), q)"
  by (simp add: remove_def)

lemma remove_found:
  "indexOfItemInQueue q x = Some (Inr (int i)) \<Longrightarrow> i < length (items q) \<Longrightarrow>
   remove x q = Some (Inr (), deleted q i)"
  by (simp add: remove_def splice_remove_in_range deleted_def)

lemma remove_fault:
  "indexOfItemInQueue q x = Some (Inl e) \<Longrightarrow> remove x q = Some (Inl e, q)"
  by (simp add: remove_def)

lemma take_drop_remove1:
  assumes "distinct xs" "i < length xs"
  shows "take i xs @ drop (Suc i) xs = remove1 (xs ! i) xs"
proof -
  have xs: "xs = take i xs @ xs ! i # drop (Suc i) xs" using assms(2) by (rule id_take_nth_drop)
  then have "distinct (take i xs @ xs ! i # drop (Suc i) xs)" using assms(1) by simp
  then have "xs ! i \<notin> set (take i xs)" by auto
  then have "remove1 (xs ! i) (take i xs @ xs ! i # drop (Suc i) xs) = take i xs @ drop (Suc i) xs"
    by (simp add: remove1_append)
  then show ?thesis using xs by simp
qed

lemma deleted_withdrawn:
  "distinct (items q) \<Longrightarrow> i < length (items q) \<Longrightarrow> deleted q i = withdrawn q (items q ! i)"
  by (simp add: deleted_def withdrawn_def take_drop_remove1)

lemma sorted_remove1:
  assumes "distinct xs" "sorted_wrt P xs"
  shows "sorted_wrt P (remove1 x xs)"
proof -
  from assms(2) have "sorted_wrt P (filter (\<lambda>y. x \<noteq> y) xs)" by (rule sorted_wrt_filter)
  then show ?thesis using assms(1) by (simp add: distinct_remove1_removeAll removeAll_filter_not_eq)
qed

lemma withdrawn_well_formed:
  assumes w: "well_formed q"
  shows "well_formed (withdrawn q x)"
proof -
  let ?xs = "items q"
  have d: "distinct ?xs" using w by (rule well_formed_distinct)
  have m: "dom (timestampMap (withdrawn q x)) = set (remove1 x ?xs)"
    using w d by (auto simp: well_formed_def withdrawn_def)
  have "sorted_wrt (in_order q) ?xs" using w by (simp add: well_formed_def sort_invariant_sorted_wrt)
  with d have "sorted_wrt (in_order q) (remove1 x ?xs)" by (rule sorted_remove1)
  moreover have "\<And>a b. a \<in> set (remove1 x ?xs) \<Longrightarrow> b \<in> set (remove1 x ?xs) \<Longrightarrow>
      in_order q a b \<Longrightarrow> in_order (withdrawn q x) a b"
  proof -
    fix a b assume "a \<in> set (remove1 x ?xs)" "b \<in> set (remove1 x ?xs)" "in_order q a b"
    then have "a \<noteq> x" "b \<noteq> x" using d by auto
    then have tm: "timestampMap (withdrawn q x) a = timestampMap q a"
      "timestampMap (withdrawn q x) b = timestampMap q b" by (simp_all add: withdrawn_def)
    show "in_order (withdrawn q x) a b" using \<open>in_order q a b\<close> unfolding in_order_def tm .
  qed
  ultimately have "sorted_wrt (in_order (withdrawn q x)) (remove1 x ?xs)"
    by (rule sorted_wrt_mono_rel[rotated]) auto
  then show ?thesis using d m by (simp add: well_formed_def sort_invariant_sorted_wrt withdrawn_def)
qed

lemma deleted_well_formed:
  "well_formed q \<Longrightarrow> i < length (items q) \<Longrightarrow> well_formed (deleted q i)"
  by (simp add: deleted_withdrawn well_formed_distinct withdrawn_well_formed)

lemma dequeue_empty: "items q = [] \<Longrightarrow> dequeue q = (None, q)"
  by (simp add: dequeue_def)

lemma dequeue_front: "items q \<noteq> [] \<Longrightarrow> dequeue q = (Some (hd (items q)), deleted q 0)"
  by (cases "items q") (simp_all add: dequeue_def deleted_def)

lemma dequeue_well_formed: "well_formed q \<Longrightarrow> well_formed (snd (dequeue q))"
  by (cases "items q = []") (simp_all add: dequeue_empty dequeue_front deleted_well_formed)

lemma remove_returns:
  assumes "all_timestamped q" "int32_safe q"
  shows "remove x q = Some (Inr (), q) \<or>
         (\<exists>k<length (items q). items q ! k = x \<and> remove x q = Some (Inr (), deleted q k))"
proof -
  from locate_returns[OF assms, of x] obtain k where
    k: "indexOfItemInQueue q x = Some (Inr k)"
    "k = - 1 \<or> (0 \<le> k \<and> k < int (length (items q)) \<and> items q ! nat k = x)" by blast
  show ?thesis
  proof (cases "k = - 1")
    case True
    with k(1) show ?thesis by (simp add: remove_not_found)
  next
    case False
    with k(2) have n: "nat k < length (items q)" "items q ! nat k = x" "int (nat k) = k" by auto
    from remove_found[of q x "nat k"] k(1) n
    have "remove x q = Some (Inr (), deleted q (nat k))" by simp
    with n show ?thesis by blast
  qed
qed

lemma remove_well_formed:
  assumes w: "well_formed q" and b: "int32_safe q"
  shows "\<exists>q'. remove x q = Some (Inr (), q') \<and> well_formed q'"
  using remove_returns[OF well_formed_all_timestamped[OF w] b, of x] w
  by (auto simp: deleted_well_formed)

lemma enqueue_well_formed:
  assumes w: "well_formed q" and x: "x \<notin> set (items q)"
  shows "\<exists>q'. enqueue now x t q = (Inr (), q') \<and> well_formed q'"
proof -
  let ?t = "new_timestamp q now x t"
  have a: "all_timestamped q" using w by (rule well_formed_all_timestamped)
  have s: "sort_invariant q" using w by (simp add: well_formed_def)
  from enqueue_position[OF a, of x now t] obtain p where p: "p \<le> length (items q)"
    "enqueue now x t q = (Inr (), inserted q p x ?t)"
    "0 < p \<longrightarrow> goes_after q x ?t (items q ! (p - 1))"
    "\<forall>j. p \<le> j \<and> j < length (items q) \<longrightarrow> \<not> goes_after q x ?t (items q ! j)"
    by blast
  from inserted_sorted[OF s a p(1,3,4)] have so: "sort_invariant (inserted q p x ?t)" .
  have u: "set (take p (items q)) \<union> set (drop p (items q)) = set (items q)"
    by (metis append_take_drop_id set_append)
  then have "dom (timestampMap (inserted q p x ?t)) = set (items (inserted q p x ?t))"
    using w by (auto simp: well_formed_def inserted_def)
  moreover have "distinct (take p (items q)) \<and> distinct (drop p (items q)) \<and>
      set (take p (items q)) \<inter> set (drop p (items q)) = {}"
    using well_formed_distinct[OF w] distinct_append[of "take p (items q)" "drop p (items q)"]
    by simp
  then have "distinct (items (inserted q p x ?t))"
    using x u by (auto simp: inserted_def)
  ultimately have "well_formed (inserted q p x ?t)" using so by (simp add: well_formed_def)
  with p(2) show ?thesis by blast
qed


lemma requeue_removes:
  assumes d: "distinct (items q)" and s: "sort_invariant q" and a: "all_timestamped q"
    and b: "int32_safe q" and u: "unrivalled q x"
  shows "\<exists>q1. remove x q = Some (Inr (), q1) \<and> items q1 = remove1 x (items q) \<and>
           (timestampMap q1)(x \<mapsto> t) = (timestampMap q)(x \<mapsto> t)"
proof (cases "x \<in> set (items q)")
  case True
  from locate_queued[OF s a u b True] obtain k where k: "k < length (items q)"
    "indexOfItemInQueue q x = Some (Inr (int k))" "items q ! k = x" by blast
  from remove_found[OF k(2,1)] have "remove x q = Some (Inr (), deleted q k)" .
  moreover have "items (deleted q k) = remove1 x (items q)"
    using take_drop_remove1[OF d k(1)] k(3) by (simp add: deleted_def)
  moreover have "(timestampMap (deleted q k))(x \<mapsto> t) = (timestampMap q)(x \<mapsto> t)"
    using k(3) by (simp add: deleted_def)
  ultimately show ?thesis by blast
next
  case False
  from locate_returns[OF a b, of x] obtain k where
    k: "indexOfItemInQueue q x = Some (Inr k)"
    "k = - 1 \<or> (0 \<le> k \<and> k < int (length (items q)) \<and> items q ! nat k = x)" by blast
  have "k = - 1"
  proof (rule ccontr)
    assume "k \<noteq> - 1"
    with k(2) have "nat k < length (items q)" "items q ! nat k = x" by auto
    then have "x \<in> set (items q)" by (auto simp: in_set_conv_nth)
    with False show False by simp
  qed
  with k(1) have "remove x q = Some (Inr (), q)" by (simp add: remove_not_found)
  then show ?thesis using False by (simp add: remove1_idem)
qed

lemma requeue_result:
  fixes now :: int and t :: "int option"
  assumes d: "distinct (items q)" and s: "sort_invariant q" and a: "all_timestamped q"
    and b: "int32_safe q" and u: "unrivalled q x"
  defines "t' \<equiv> (case t of None \<Rightarrow> now | Some supplied \<Rightarrow> supplied)"
  defines "rest \<equiv> remove1 x (items q)"
  shows "\<exists>p\<le>length rest.
           requeue now now' x t q =
             Some (Inr (), \<lparr>items = take p rest @ [x] @ drop p rest,
                            timestampMap = (timestampMap q)(x \<mapsto> t')\<rparr>) \<and>
           sort_invariant \<lparr>items = take p rest @ [x] @ drop p rest,
                           timestampMap = (timestampMap q)(x \<mapsto> t')\<rparr> \<and>
           (\<forall>j<p. goes_after q x t' (rest ! j)) \<and>
           (\<forall>j. p \<le> j \<and> j < length rest \<longrightarrow> \<not> goes_after q x t' (rest ! j))"
proof -
  from requeue_removes[OF d s a b u, of t'] obtain q1 where
    r: "remove x q = Some (Inr (), q1)" and i1: "items q1 = rest"
    and m1: "(timestampMap q1)(x \<mapsto> t') = (timestampMap q)(x \<mapsto> t')"
    unfolding rest_def by blast
  let ?q2 = "q1\<lparr>timestampMap := (timestampMap q1)(x \<mapsto> t')\<rparr>"
  have i2: "items ?q2 = rest" using i1 by simp
  have m2: "timestampMap ?q2 = (timestampMap q)(x \<mapsto> t')" using m1 by simp
  have nx: "x \<notin> set rest" using d by (simp add: rest_def)
  have sub: "\<And>y. y \<in> set rest \<Longrightarrow> y \<in> set (items q) \<and> y \<noteq> x"
    using nx set_remove1_subset[of x "items q"] by (auto simp: rest_def)
  have same: "\<And>y. y \<in> set rest \<Longrightarrow> timestampMap ?q2 y = timestampMap q y"
    using sub m2 by simp
  have a2: "all_timestamped ?q2"
    unfolding all_timestamped_def list_all_iff i2
  proof
    fix y assume y: "y \<in> set rest"
    with sub a have "timestampMap q y \<noteq> None" by (auto simp: all_timestamped_def list_all_iff)
    with same[OF y] show "timestampMap ?q2 y \<noteq> None" by simp
  qed
  have "sorted_wrt (in_order q) (items q)" using s by (simp add: sort_invariant_sorted_wrt)
  with d have "sorted_wrt (in_order q) rest" unfolding rest_def by (rule sorted_remove1)
  moreover have "\<And>c e. c \<in> set rest \<Longrightarrow> e \<in> set rest \<Longrightarrow> in_order q c e \<Longrightarrow> in_order ?q2 c e"
  proof -
    fix c e assume ce: "c \<in> set rest" "e \<in> set rest" "in_order q c e"
    show "in_order ?q2 c e" using ce(3) unfolding in_order_def same[OF ce(1)] same[OF ce(2)] .
  qed
  ultimately have "sorted_wrt (in_order ?q2) rest"
    by (rule sorted_wrt_mono_rel[rotated]) auto
  then have s2: "sort_invariant ?q2" by (simp add: sort_invariant_sorted_wrt i1)
  have nt: "new_timestamp ?q2 now' x None = t'" by (simp add: new_timestamp_def)
  from enqueue_position[OF a2, of x now' None] obtain p where p: "p \<le> length rest"
    "enqueue now' x None ?q2 = (Inr (), inserted ?q2 p x t')"
    "0 < p \<longrightarrow> goes_after ?q2 x t' (rest ! (p - 1))"
    "\<forall>j. p \<le> j \<and> j < length rest \<longrightarrow> \<not> goes_after ?q2 x t' (rest ! j)"
    unfolding nt i2 by blast
  have p': "p \<le> length (items ?q2)"
    "0 < p \<longrightarrow> goes_after ?q2 x (new_timestamp ?q2 now' x None) (items ?q2 ! (p - 1))"
    "\<forall>j. p \<le> j \<and> j < length (items ?q2) \<longrightarrow>
         \<not> goes_after ?q2 x (new_timestamp ?q2 now' x None) (items ?q2 ! j)"
    using p(1,3,4) unfolding nt i2 by auto
  from inserted_sorted[OF s2 a2 p'] have so: "sort_invariant (inserted ?q2 p x t')"
    unfolding nt .
  have fin: "inserted ?q2 p x t' =
      \<lparr>items = take p rest @ [x] @ drop p rest, timestampMap = (timestampMap q)(x \<mapsto> t')\<rparr>"
    using i1 m1 by (simp add: inserted_def)
  have ga: "\<And>j. j < length rest \<Longrightarrow> goes_after ?q2 x t' (rest ! j) = goes_after q x t' (rest ! j)"
  proof -
    fix j assume "j < length rest"
    then have "rest ! j \<in> set rest" by simp
    from same[OF this] show "goes_after ?q2 x t' (rest ! j) = goes_after q x t' (rest ! j)"
      by (simp add: goes_after_def)
  qed
  have bp: "\<forall>j<p. goes_after ?q2 x t' (rest ! j)"
  proof (intro allI impI)
    fix j assume j: "j < p"
    then have "0 < p" by simp
    with p(3) have g: "goes_after ?q2 x t' (items ?q2 ! (p - 1))" using i2 by simp
    from before_insertion_point[OF s2 p'(1) \<open>0 < p\<close> g j]
    show "goes_after ?q2 x t' (rest ! j)" using i2 by simp
  qed
  have "requeue now now' x t q = Some (enqueue now' x None ?q2)"
    using r by (simp add: requeue_def t'_def)
  then have "requeue now now' x t q = Some (Inr (), inserted ?q2 p x t')" using p(2) by simp
  moreover have "\<forall>j<p. goes_after q x t' (rest ! j)" using p(1) bp ga by auto
  moreover have "\<forall>j. p \<le> j \<and> j < length rest \<longrightarrow> \<not> goes_after q x t' (rest ! j)"
    using p(4) ga by auto
  ultimately show ?thesis using p(1) so unfolding fin by blast
qed

lemma requeue_well_formed:
  assumes w: "well_formed q" and b: "int32_safe q" and u: "unrivalled q x"
  shows "\<exists>q'. requeue now now' x t q = Some (Inr (), q') \<and> well_formed q'"
proof -
  let ?rest = "remove1 x (items q)"
  let ?t = "case t of None \<Rightarrow> now | Some supplied \<Rightarrow> supplied"
  have d: "distinct (items q)" using w by (rule well_formed_distinct)
  have s: "sort_invariant q" using w by (simp add: well_formed_def)
  from requeue_result[OF d s well_formed_all_timestamped[OF w] b u, where now = now and t = t and now' = now']
  obtain p where p: "p \<le> length ?rest"
    "requeue now now' x t q =
       Some (Inr (), \<lparr>items = take p ?rest @ [x] @ drop p ?rest,
                      timestampMap = (timestampMap q)(x \<mapsto> ?t)\<rparr>)"
    "sort_invariant \<lparr>items = take p ?rest @ [x] @ drop p ?rest,
                     timestampMap = (timestampMap q)(x \<mapsto> ?t)\<rparr>"
    by blast
  let ?q' = "\<lparr>items = take p ?rest @ [x] @ drop p ?rest,
              timestampMap = (timestampMap q)(x \<mapsto> ?t)\<rparr>"
  have un: "set (take p ?rest) \<union> set (drop p ?rest) = set ?rest"
    by (metis append_take_drop_id set_append)
  have dr: "distinct (take p ?rest) \<and> distinct (drop p ?rest) \<and>
      set (take p ?rest) \<inter> set (drop p ?rest) = {}"
    using d distinct_append[of "take p ?rest" "drop p ?rest"] by simp
  have nx: "x \<notin> set ?rest" using d by simp
  have "distinct (items ?q')" using dr nx un by auto
  moreover have "set (items ?q') = insert x (set (items q))" using un d by auto
  then have "dom (timestampMap ?q') = set (items ?q')" using w by (auto simp: well_formed_def)
  ultimately have "well_formed ?q'" using p(3) by (simp add: well_formed_def)
  with p(2) show ?thesis by blast
qed

lemma makeQueue_well_formed: "well_formed makeQueue"
  by (simp add: well_formed_def makeQueue_def sort_invariant_def)

lemma perform_well_formed:
  assumes "well_formed q" "proper_use c q"
  shows "\<exists>q'. perform clock c q = Some (Inr (), q') \<and> well_formed q'"
proof (cases clock)
  case (Pair now now')
  show ?thesis
  proof (cases c)
    case (Enqueue x t)
    with assms have "x \<notin> set (items q)" by simp
    from enqueue_well_formed[OF assms(1) this, of now t] show ?thesis using Enqueue Pair by auto
  next
    case Dequeue
    then show ?thesis using assms Pair by (simp add: dequeue_well_formed)
  next
    case (Requeue x t)
    with assms have "int32_safe q" "unrivalled q x" by auto
    from requeue_well_formed[OF assms(1) this, of now now' t] show ?thesis using Requeue Pair by auto
  next
    case (Remove x)
    with assms have "int32_safe q" by simp
    from remove_well_formed[OF assms(1) this, of x] show ?thesis using Remove Pair by auto
  qed
qed

lemma run_well_formed:
  "well_formed q \<Longrightarrow> proper_run cs q \<Longrightarrow>
   completes cs q \<and> (\<exists>q'. run cs q = Some q' \<and> well_formed q')"
proof (induction cs arbitrary: q)
  case Nil
  then show ?case by simp
next
  case (Cons a cs)
  obtain clock c where a: "a = (clock, c)" by (cases a)
  from Cons.prems a have "proper_use c q" by simp
  from perform_well_formed[OF Cons.prems(1) this, of clock]
  obtain q1 where q1: "perform clock c q = Some (Inr (), q1)" "well_formed q1" by blast
  with Cons.prems a have "proper_run cs q1" by simp
  from Cons.IH[OF q1(2) this] show ?case using a q1(1) by simp
qed

lemma proper_run_take: "proper_run cs q \<Longrightarrow> proper_run (take n cs) q"
proof (induction cs arbitrary: n q)
  case Nil
  then show ?case by simp
next
  case (Cons a cs)
  obtain clock c where a: "a = (clock, c)" by (cases a)
  show ?case
  proof (cases n)
    case 0
    then show ?thesis by simp
  next
    case (Suc m)
    then show ?thesis using Cons.prems Cons.IH[of _ m] a
      by (auto split: option.splits)
  qed
qed

section \<open>Missing timestamps\<close>

lemma scan_fault:
  "0 \<le> k \<Longrightarrow> k \<le> i \<Longrightarrow> i < int (length (items q)) \<Longrightarrow>
   timestampMap q (items q ! nat k) = None \<Longrightarrow>
   (\<forall>j. k < j \<and> j \<le> i \<longrightarrow> timestampMap q (items q ! nat j) \<noteq> None \<and> \<not> goes_after q x t (items q ! nat j)) \<Longrightarrow>
   scan q x t i = Inl MissingTimestamp"
proof (induction q x t i rule: scan.induct)
  case (1 q x t i)
  have i0: "0 \<le> i" using "1.prems" by simp
  show ?case
  proof (cases "k = i")
    case True
    then have "entry_at q i = None" using "1.prems" by (simp add: entry_at_def item_at_nth)
    then show ?thesis using i0 by (subst scan.simps) simp
  next
    case False
    then have ki: "k < i" using "1.prems" by simp
    with "1.prems"(5) obtain u where u: "timestampMap q (items q ! nat i) = Some u"
      and ng: "\<not> goes_after q x t (items q ! nat i)" by auto
    have e: "entry_at q i = Some (items q ! nat i, u)"
      using u i0 "1.prems"(3) by (simp add: entry_at_def item_at_nth)
    have go: "\<not> (u < t \<or> t = u \<and> key (items q ! nat i) < key x)"
      using ng u by (simp add: goes_after_def)
    have "scan q x t (i - 1) = Inl MissingTimestamp"
      using "1.IH"[OF i0 e refl go] "1.prems" ki by auto
    then show ?thesis using i0 e go by (subst scan.simps) auto
  qed
qed

lemma scan_reaches_fault:
  assumes "scan_reaches q x t i" "timestampMap q (items q ! i) = None"
  shows "scan q x t (int (length (items q)) - 1) = Inl MissingTimestamp"
proof -
  from assms(1) have i: "i < length (items q)"
    and a: "list_all (\<lambda>y. timestampMap q y \<noteq> None \<and> \<not> goes_after q x t y) (drop (Suc i) (items q))"
    by (simp_all add: scan_reaches_def)
  have "\<forall>j. int i < j \<and> j \<le> int (length (items q)) - 1 \<longrightarrow>
      timestampMap q (items q ! nat j) \<noteq> None \<and> \<not> goes_after q x t (items q ! nat j)"
  proof (intro allI impI)
    fix j assume j: "int i < j \<and> j \<le> int (length (items q)) - 1"
    then have "nat j - Suc i < length (drop (Suc i) (items q))" by auto
    with a have "(\<lambda>y. timestampMap q y \<noteq> None \<and> \<not> goes_after q x t y) (drop (Suc i) (items q) ! (nat j - Suc i))"
      unfolding list_all_length by blast
    moreover have e: "Suc i + (nat j - Suc i) = nat j" using j by auto
    have "drop (Suc i) (items q) ! (nat j - Suc i) = items q ! (Suc i + (nat j - Suc i))"
      by (rule nth_drop) (use i in simp)
    then have "drop (Suc i) (items q) ! (nat j - Suc i) = items q ! nat j"
      by (simp only: e)
    ultimately show "timestampMap q (items q ! nat j) \<noteq> None \<and> \<not> goes_after q x t (items q ! nat j)"
      by simp
  qed
  from scan_fault[of "int i" "int (length (items q)) - 1" q x t] this assms(2) i
  show ?thesis by simp
qed

lemma enqueue_fault:
  "scan q x (new_timestamp q now x t) (int (length (items q)) - 1) = Inl e \<Longrightarrow>
   enqueue now x t q = (Inl e, q)"
proof -
  assume s: "scan q x (new_timestamp q now x t) (int (length (items q)) - 1) = Inl e"
  have "(case timestampMap q x of None \<Rightarrow> (case t of None \<Rightarrow> now | Some s \<Rightarrow> s) | Some r \<Rightarrow> r)
      = new_timestamp q now x t"
    by (simp add: new_timestamp_def split: option.splits)
  then show ?thesis using s by (simp add: enqueue_def)
qed

lemma bsearch_fault:
  "search_reaches q x t l r i \<Longrightarrow> entry_at q i = None \<Longrightarrow>
   bsearch q x t l r = Some (Inl MissingTimestamp)"
proof (induction rule: search_reaches.induct)
  case (midpoint l r)
  then show ?case by (simp add: bsearch_missing)
next
  case (higher l r h ht i)
  then show ?case by (simp add: bsearch_higher)
next
  case (lower l r h ht i)
  then show ?case by (simp add: bsearch_lower)
qed

lemma bsearch_reaches_hit:
  "search_reaches q x t l r i \<Longrightarrow> entry_at q i = Some (x, u) \<Longrightarrow>
   bsearch q x t l r = Some (Inr i)"
proof (induction rule: search_reaches.induct)
  case (midpoint l r)
  then show ?case by (simp add: bsearch_hit)
next
  case (higher l r h ht i)
  then show ?case by (simp add: bsearch_higher)
next
  case (lower l r h ht i)
  then show ?case by (simp add: bsearch_lower)
qed

lemma locate_fault:
  assumes "timestampMap q x = Some u"
    and "search_reaches q x u 0 (int (length (items q)) - 1) i"
    and "0 \<le> i" "i < int (length (items q))" "timestampMap q (items q ! nat i) = None"
  shows "indexOfItemInQueue q x = Some (Inl MissingTimestamp)"
proof -
  have "entry_at q i = None" using assms(3-5) by (simp add: entry_at_def item_at_nth)
  from bsearch_fault[OF assms(2) this] show ?thesis using assms(1) by (simp add: indexOfItemInQueue_def)
qed

section \<open>Evaluating the examples\<close>

lemmas examples = itemA_def itemB_def itemC_def itemD_def twin1_def twin2_def stranger_def
  two_items_def stale_queue_def stale_queue'_def stale_three_def twins_queue_def

lemmas evaluation = makeQueue_def enqueue_def dequeue_def requeue_def remove_def
  indexOfItemInQueue_def bsearch.simps shr1_def toInt32_def direction_def
  splice_remove_def scan.simps splice_insert_def splice_start_def entry_at_def item_at_def

text \<open>
  The run of the specification's section 8: two objects with the same key may be in
  the queue together.
\<close>

lemma equal_keys_run:
  "proper_run [((0, 0), Enqueue itemA (Some 100)), ((0, 0), Enqueue itemB (Some 100)),
               ((0, 0), Enqueue itemC (Some 50))] makeQueue \<and>
   map_option items
     (run [((0, 0), Enqueue itemA (Some 100)), ((0, 0), Enqueue itemB (Some 100)),
           ((0, 0), Enqueue itemC (Some 50))] makeQueue) = Some [itemC, itemA, itemB]"
  by (simp add: evaluation examples)

text \<open>
  Why \<open>requeue\<close> must not be given an item with a rival. The twins are different
  objects, each enqueued once, with the same key and the same timestamp. The search
  for the second twin fails, so \<open>requeue\<close> leaves it where it is and inserts it a
  second time: the sequence is no longer sorted. Two \<open>dequeue\<close> calls later the
  remaining copy has lost its timestamp, and a search for another item throws although
  the keys are pairwise distinct.
\<close>

lemma twin_requeue_breaks_order:
  "map_option items
     (run [((0, 0), Enqueue twin2 (Some 100)), ((0, 0), Enqueue twin1 (Some 100)),
           ((0, 0), Requeue twin2 (Some 50))] makeQueue) = Some [twin2, twin1, twin2] \<and>
   map_option timestamps
     (run [((0, 0), Enqueue twin2 (Some 100)), ((0, 0), Enqueue twin1 (Some 100)),
           ((0, 0), Requeue twin2 (Some 50))] makeQueue) = Some [Some 50, Some 100, Some 50] \<and>
   map_option sort_invariant
     (run [((0, 0), Enqueue twin2 (Some 100)), ((0, 0), Enqueue twin1 (Some 100)),
           ((0, 0), Requeue twin2 (Some 50))] makeQueue) = Some False"
  by (simp add: evaluation examples timestamps_def sort_invariant_def in_order_def)

lemma twin_requeue_breaks_locate:
  "map_option items
     (run [((0, 0), Enqueue twin2 (Some 100)), ((0, 0), Enqueue twin1 (Some 100)),
           ((0, 0), Requeue twin2 (Some 50)), ((0, 0), Enqueue itemB (Some 200)),
           ((0, 0), Dequeue), ((0, 0), Dequeue)] makeQueue) = Some [twin2, itemB] \<and>
   distinct (map key [twin2, itemB]) \<and>
   Option.bind
     (run [((0, 0), Enqueue twin2 (Some 100)), ((0, 0), Enqueue twin1 (Some 100)),
           ((0, 0), Requeue twin2 (Some 50)), ((0, 0), Enqueue itemB (Some 200)),
           ((0, 0), Dequeue), ((0, 0), Dequeue)] makeQueue)
     (\<lambda>q. indexOfItemInQueue q itemB) = Some (Inl MissingTimestamp)"
  by (simp add: evaluation examples)

text \<open>
  Beyond \<open>2^30\<close> items the sum \<open>l + r\<close> can reach \<open>2^31\<close>. The shift then yields a
  negative index, the read outside the array has no timestamp, and the search throws.
\<close>

lemma toInt32_wrap:
  assumes "2 ^ 31 \<le> n" and "n < 2 ^ 32"
  shows "toInt32 n = n - 2 ^ 32"
proof -
  have e: "n + 2 ^ 31 = (n - 2 ^ 31) + (2 ^ 32 :: int)" by simp
  have "(n + 2 ^ 31) mod 2 ^ 32 = (n - 2 ^ 31) mod (2 ^ 32 :: int)"
    by (simp only: e mod_add_self2)
  also have "\<dots> = n - 2 ^ 31" using assms by (intro mod_pos_pos_trivial) simp_all
  finally show ?thesis by (simp add: toInt32_def)
qed

lemma bsearch_int32_wrap:
  assumes "l \<le> r" and "2 ^ 31 \<le> l + r" and "l + r < 2 ^ 32"
  shows "bsearch q x t l r = Some (Inl MissingTimestamp)"
proof -
  have "shr1 (l + r) < 0" using assms(3) by (simp add: shr1_def toInt32_wrap[OF assms(2,3)])
  then have "entry_at q (shr1 (l + r)) = None" by (simp add: entry_at_def item_at_def)
  with assms(1) show ?thesis by (rule bsearch_missing)
qed

section \<open>The claims\<close>

text \<open>
  Claim C1, as stated, fails. Nothing stops a caller from enqueueing an item that is in
  the queue already. After \<open>enqueue(A, 100)\<close>, \<open>enqueue(A, 100)\<close>,
  \<open>enqueue(B, 200)\<close> the sequence is \<open>[A, A, B]\<close>; \<open>requeue(A, 300)\<close> then removes
  one \<open>A\<close> and inserts \<open>A\<close> at the end with timestamp \<open>300\<close>, which is now also the
  timestamp of the \<open>A\<close> left at the front: \<open>[A, B, A]\<close> with timestamps
  \<open>300, 200, 300\<close>.
\<close>

theorem double_enqueue_breaks_order:
  "map_option items
     (run [((0, 0), Enqueue itemA (Some 100)), ((0, 0), Enqueue itemA (Some 100)),
           ((0, 0), Enqueue itemB (Some 200)), ((0, 0), Requeue itemA (Some 300))] makeQueue)
     = Some [itemA, itemB, itemA] \<and>
   map_option timestamps
     (run [((0, 0), Enqueue itemA (Some 100)), ((0, 0), Enqueue itemA (Some 100)),
           ((0, 0), Enqueue itemB (Some 200)), ((0, 0), Requeue itemA (Some 300))] makeQueue)
     = Some [Some 300, Some 200, Some 300] \<and>
   map_option sort_invariant
     (run [((0, 0), Enqueue itemA (Some 100)), ((0, 0), Enqueue itemA (Some 100)),
           ((0, 0), Enqueue itemB (Some 200)), ((0, 0), Requeue itemA (Some 300))] makeQueue)
     = Some False"
  by (simp add: evaluation examples timestamps_def sort_invariant_def in_order_def)

text \<open>
  Claim C1, amended. Starting from the empty queue, take any sequence of \<open>enqueue\<close>,
  \<open>dequeue\<close>, \<open>remove\<close> and \<open>requeue\<close> calls in which \<open>enqueue\<close> is never given
  an item that is in the queue already, \<open>requeue\<close> is never given an item that shares
  both key and recorded timestamp with another queued item, and \<open>remove\<close> and
  \<open>requeue\<close> are called on at most \<open>2^30\<close> items. Then every call returns normally,
  and after every call of the sequence every pair of adjacent items \<open>a\<close>, \<open>b\<close> has
  \<open>timestamp a < timestamp b\<close>, or equal timestamps and \<open>key a \<le> key b\<close>.
\<close>

theorem proper_run_sorted:
  assumes "proper_run cs makeQueue"
  shows "completes cs makeQueue \<and>
         (\<forall>n. \<exists>q. run (take n cs) makeQueue = Some q \<and> sort_invariant q)"
proof
  from run_well_formed[OF makeQueue_well_formed assms]
  show "completes cs makeQueue" by simp
  show "\<forall>n. \<exists>q. run (take n cs) makeQueue = Some q \<and> sort_invariant q"
  proof
    fix n
    from run_well_formed[OF makeQueue_well_formed proper_run_take[OF assms, of n]]
    show "\<exists>q. run (take n cs) makeQueue = Some q \<and> sort_invariant q"
      by (auto simp: well_formed_def)
  qed
qed

theorem proper_run_sorted_witness:
  "proper_run [((0, 0), Enqueue itemA (Some 100)), ((0, 0), Enqueue itemB (Some 100)),
               ((0, 0), Enqueue itemC (Some 50)), ((0, 0), Requeue itemB (Some 30)),
               ((0, 0), Enqueue stranger None), ((0, 0), Remove itemC),
               ((0, 0), Dequeue)] makeQueue \<and>
   completes [((0, 0), Enqueue itemA (Some 100)), ((0, 0), Enqueue itemB (Some 100)),
              ((0, 0), Enqueue itemC (Some 50)), ((0, 0), Requeue itemB (Some 30)),
              ((0, 0), Enqueue stranger None), ((0, 0), Remove itemC),
              ((0, 0), Dequeue)] makeQueue \<and>
   (\<exists>q. run [((0, 0), Enqueue itemA (Some 100)), ((0, 0), Enqueue itemB (Some 100)),
              ((0, 0), Enqueue itemC (Some 50)), ((0, 0), Requeue itemB (Some 30)),
              ((0, 0), Enqueue stranger None), ((0, 0), Remove itemC),
              ((0, 0), Dequeue)] makeQueue = Some q \<and>
        sort_invariant q \<and> items q = [itemB, itemA] \<and>
        timestamps q = [Some 30, Some 100]) \<and>
   (\<exists>q. run [((0, 0), Enqueue itemA (Some 100)), ((0, 0), Enqueue itemB (Some 100)),
              ((0, 0), Enqueue itemC (Some 50)), ((0, 0), Requeue itemB (Some 30)),
              ((0, 0), Enqueue stranger None)] makeQueue = Some q \<and>
        sort_invariant q \<and> items q = [stranger, itemB, itemC, itemA] \<and>
        timestamps q = [Some 0, Some 30, Some 50, Some 100])"
proof -
  let ?cs = "[((0, 0), Enqueue itemA (Some 100)), ((0, 0), Enqueue itemB (Some 100)),
               ((0, 0), Enqueue itemC (Some 50)), ((0, 0), Requeue itemB (Some 30)),
               ((0, 0), Enqueue stranger None), ((0, 0), Remove itemC),
               ((0, 0), Dequeue)]"
  have p: "proper_run ?cs makeQueue"
    by (simp add: evaluation examples int32_safe_def unrivalled_def)
  have i: "map_option items (run ?cs makeQueue) = Some [itemB, itemA]"
    "map_option timestamps (run ?cs makeQueue) = Some [Some 30, Some 100]"
    "map_option items (run (take 5 ?cs) makeQueue) = Some [stranger, itemB, itemC, itemA]"
    "map_option timestamps (run (take 5 ?cs) makeQueue) = Some [Some 0, Some 30, Some 50, Some 100]"
    by (simp_all add: evaluation examples timestamps_def)
  from proper_run_sorted[OF p] have c: "completes ?cs makeQueue"
    and a: "\<forall>n. \<exists>q. run (take n ?cs) makeQueue = Some q \<and> sort_invariant q" by auto
  from a[rule_format, of 7] obtain q where q: "run ?cs makeQueue = Some q" "sort_invariant q"
    by auto
  from a[rule_format, of 5] obtain q' where q': "run (take 5 ?cs) makeQueue = Some q'"
    "sort_invariant q'" by auto
  have t5: "take 5 ?cs = [((0, 0), Enqueue itemA (Some 100)), ((0, 0), Enqueue itemB (Some 100)),
              ((0, 0), Enqueue itemC (Some 50)), ((0, 0), Requeue itemB (Some 30)),
              ((0, 0), Enqueue stranger None)]" by simp
  from q i(1,2) have 1: "\<exists>q. run ?cs makeQueue = Some q \<and> sort_invariant q \<and>
      items q = [itemB, itemA] \<and> timestamps q = [Some 30, Some 100]" by auto
  from q' i(3,4) have 2: "\<exists>q. run (take 5 ?cs) makeQueue = Some q \<and> sort_invariant q \<and>
      items q = [stranger, itemB, itemC, itemA] \<and>
      timestamps q = [Some 0, Some 30, Some 50, Some 100]" by auto
  from p c 1 2[unfolded t5] show ?thesis by blast
qed

text \<open>
  Claim C2. In a queue that satisfies the sort invariant and whose items all have a
  recorded timestamp, the backward scan of \<open>enqueue\<close> goes on while the new item does
  not order strictly after the item it looks at, that is while
  \<open>\<not> (newTimestamp > endTimestamp \<or> (newTimestamp = endTimestamp \<and> newKey > endKey))\<close>.
  It stops at index \<open>p - 1\<close>: every item up to there orders strictly before the new
  item (so is less than or equal to it), no item behind it does, and the new item is
  inserted right behind it, at index \<open>p\<close>, which is \<open>0\<close> when no item orders before
  the new one. The sequence stays sorted.
\<close>

theorem enqueue_insertion_position:
  assumes "sort_invariant q" and "all_timestamped q"
  shows "\<exists>p\<le>length (items q).
           scan q x (new_timestamp q now x t) (int (length (items q)) - 1) = Inr (int p - 1) \<and>
           enqueue now x t q = (Inr (), inserted q p x (new_timestamp q now x t)) \<and>
           (\<forall>j<p. goes_after q x (new_timestamp q now x t) (items q ! j)) \<and>
           (\<forall>j. p \<le> j \<and> j < length (items q) \<longrightarrow>
                \<not> goes_after q x (new_timestamp q now x t) (items q ! j)) \<and>
           (0 < p \<longrightarrow>
              in_order (inserted q p x (new_timestamp q now x t)) (items q ! (p - 1)) x) \<and>
           ((\<forall>y\<in>set (items q). \<not> goes_after q x (new_timestamp q now x t) y) \<longrightarrow> p = 0) \<and>
           sort_invariant (inserted q p x (new_timestamp q now x t))"
proof -
  let ?t = "new_timestamp q now x t"
  from enqueue_position[OF assms(2), of x now t] obtain p where p: "p \<le> length (items q)"
    "scan q x ?t (int (length (items q)) - 1) = Inr (int p - 1)"
    "enqueue now x t q = (Inr (), inserted q p x ?t)"
    "0 < p \<longrightarrow> goes_after q x ?t (items q ! (p - 1))"
    "\<forall>j. p \<le> j \<and> j < length (items q) \<longrightarrow> \<not> goes_after q x ?t (items q ! j)"
    by blast
  have b: "\<forall>j<p. goes_after q x ?t (items q ! j)"
  proof (intro allI impI)
    fix j assume j: "j < p"
    then have "0 < p" by simp
    with p(4) have "goes_after q x ?t (items q ! (p - 1))" by simp
    from before_insertion_point[OF assms(1) p(1) \<open>0 < p\<close> this j]
    show "goes_after q x ?t (items q ! j)" .
  qed
  have z: "(\<forall>y\<in>set (items q). \<not> goes_after q x ?t y) \<longrightarrow> p = 0"
  proof (intro impI, rule ccontr)
    assume n: "\<forall>y\<in>set (items q). \<not> goes_after q x ?t y" and "p \<noteq> 0"
    then have "0 < p" by simp
    with b have "goes_after q x ?t (items q ! 0)" by simp
    moreover have "0 < length (items q)" using \<open>0 < p\<close> p(1) by linarith
    then have "items q ! 0 \<in> set (items q)" by (rule nth_mem)
    ultimately show False using n by blast
  qed
  have o: "0 < p \<longrightarrow> in_order (inserted q p x ?t) (items q ! (p - 1)) x"
    using p(4) goes_after_in_order[of q x ?t "items q ! (p - 1)"] by (simp add: inserted_def)
  from inserted_sorted[OF assms p(1,4,5)] have "sort_invariant (inserted q p x ?t)" .
  with p b z o show ?thesis by blast
qed

theorem enqueue_insertion_position_witness:
  "sort_invariant two_items \<and> all_timestamped two_items \<and>
   (\<exists>p\<le>length (items two_items).
      scan two_items itemC 150 (int (length (items two_items)) - 1) = Inr (int p - 1) \<and>
      enqueue 0 itemC (Some 150) two_items = (Inr (), inserted two_items p itemC 150) \<and>
      sort_invariant (inserted two_items p itemC 150)) \<and>
   items (snd (enqueue 0 itemC (Some 150) two_items)) = [itemA, itemC, itemB]"
proof -
  have s: "sort_invariant two_items" by (simp add: sort_invariant_def in_order_def examples)
  have a: "all_timestamped two_items" by (simp add: all_timestamped_def examples)
  have n: "new_timestamp two_items 0 itemC (Some 150) = 150"
    by (simp add: new_timestamp_def examples)
  have e: "items (snd (enqueue 0 itemC (Some 150) two_items)) = [itemA, itemC, itemB]"
    by (simp add: evaluation examples)
  from enqueue_insertion_position[OF s a, of itemC 0 "Some 150"] s a e
  show ?thesis unfolding n by blast
qed

text \<open>
  Claim C3, as stated, fails. After \<open>enqueue(A)\<close>, \<open>enqueue(A)\<close>, \<open>enqueue(B)\<close>,
  \<open>dequeue()\<close> the sequence is \<open>[A, B]\<close>, its keys are pairwise distinct, and the
  timestamp of \<open>A\<close> is gone with the dequeued copy. The search for \<open>B\<close> looks at
  index \<open>0\<close> first and throws.
\<close>

theorem stale_entry_breaks_locate:
  "run [((0, 0), Enqueue itemA (Some 100)), ((0, 0), Enqueue itemA (Some 100)),
        ((0, 0), Enqueue itemB (Some 200)), ((0, 0), Dequeue)] makeQueue = Some stale_queue \<and>
   distinct (map key (items stale_queue)) \<and>
   items stale_queue ! 1 = itemB \<and>
   indexOfItemInQueue stale_queue itemB = Some (Inl MissingTimestamp)"
  by (auto simp: evaluation examples fun_eq_iff)

text \<open>
  Claim C3, amended. Take a state reached from the empty queue by calls in which
  \<open>enqueue\<close> is never given an item that is in the queue already and \<open>requeue\<close> is
  never given an item that shares both key and recorded timestamp with another queued
  item (\<open>remove\<close> and \<open>requeue\<close> being called on at most \<open>2^30\<close> items). If the keys
  of its items are pairwise distinct and it holds at most \<open>2^30\<close> items, then
  \<open>indexOfItemInQueue\<close> returns, for the item at index \<open>i\<close>, the index \<open>i\<close>.
\<close>

theorem locate_correct:
  assumes "proper_run cs makeQueue" and "run cs makeQueue = Some q"
    and "distinct (map key (items q))" and "int32_safe q" and "i < length (items q)"
  shows "indexOfItemInQueue q (items q ! i) = Some (Inr (int i))"
proof -
  from run_well_formed[OF makeQueue_well_formed assms(1)] assms(2)
  have w: "well_formed q" by auto
  from locate_present[OF w assms(4,3,5)] show ?thesis .
qed

theorem locate_correct_witness:
  "proper_run [((0, 0), Enqueue itemA (Some 100)), ((0, 0), Enqueue itemC (Some 50)),
               ((0, 0), Enqueue itemB (Some 200)), ((0, 0), Dequeue)] makeQueue \<and>
   run [((0, 0), Enqueue itemA (Some 100)), ((0, 0), Enqueue itemC (Some 50)),
        ((0, 0), Enqueue itemB (Some 200)), ((0, 0), Dequeue)] makeQueue = Some two_items \<and>
   distinct (map key (items two_items)) \<and>
   int32_safe two_items \<and> (1::nat) < length (items two_items) \<and>
   items two_items ! 1 = itemB \<and>
   indexOfItemInQueue two_items itemB = Some (Inr 1)"
proof -
  let ?cs = "[((0, 0), Enqueue itemA (Some 100)), ((0, 0), Enqueue itemC (Some 50)),
               ((0, 0), Enqueue itemB (Some 200)), ((0, 0), Dequeue)]"
  have p: "proper_run ?cs makeQueue" by (simp add: evaluation examples)
  have r: "run ?cs makeQueue = Some two_items" by (auto simp: evaluation examples fun_eq_iff)
  have d: "distinct (map key (items two_items))" by (simp add: examples)
  have s: "int32_safe two_items" by (simp add: int32_safe_def examples)
  have l: "(1::nat) < length (items two_items)" "items two_items ! 1 = itemB"
    by (simp_all add: examples)
  from locate_correct[OF p r d s l(1)] p r d s l show ?thesis by simp
qed

text \<open>
  Claim C4, as stated, fails. The identity test only fires when the midpoint is the
  needle itself. With the twins in the queue, both with key \<open>k\<close> and timestamp \<open>100\<close>,
  the search for the second looks at the first, finds equal timestamps and a key that is
  not greater, turns left and reports "not found".
\<close>

theorem duplicate_order_not_found:
  "run [((0, 0), Enqueue twin2 (Some 100)), ((0, 0), Enqueue twin1 (Some 100))] makeQueue
     = Some twins_queue \<and>
   twin1 \<noteq> twin2 \<and> key twin1 = key twin2 \<and>
   timestampMap twins_queue twin1 = timestampMap twins_queue twin2 \<and>
   items twins_queue ! 1 = twin2 \<and>
   indexOfItemInQueue twins_queue twin2 = Some (Inr (- 1))"
  by (auto simp: evaluation examples fun_eq_iff)

text \<open>
  Claim C4, amended. Whatever timestamps and keys the items share, the search for a
  specific item never returns the index of another item: when every item of the
  sequence has a timestamp (and there are at most \<open>2^30\<close> items) it returns either
  "not found" or an index at which that very item sits. And the identity test makes
  the search return an index as soon as it reaches that index and the needle is there,
  before any comparison of timestamps or keys.
\<close>

theorem locate_exact_or_not_found:
  "(all_timestamped q \<and> int32_safe q \<longrightarrow>
      (\<exists>k. indexOfItemInQueue q x = Some (Inr k) \<and>
           (k = - 1 \<or> (0 \<le> k \<and> k < int (length (items q)) \<and> items q ! nat k = x)))) \<and>
   (timestampMap q x = Some u \<and> search_reaches q x u 0 (int (length (items q)) - 1) i \<and>
    item_at (items q) i = Some x \<longrightarrow>
      indexOfItemInQueue q x = Some (Inr i))"
proof (intro conjI impI)
  assume "all_timestamped q \<and> int32_safe q"
  then show "\<exists>k. indexOfItemInQueue q x = Some (Inr k) \<and>
           (k = - 1 \<or> (0 \<le> k \<and> k < int (length (items q)) \<and> items q ! nat k = x))"
    using locate_returns[of q x] by blast
next
  assume a: "timestampMap q x = Some u \<and> search_reaches q x u 0 (int (length (items q)) - 1) i \<and>
    item_at (items q) i = Some x"
  then have "entry_at q i = Some (x, u)" by (simp add: entry_at_def)
  with a have "bsearch q x u 0 (int (length (items q)) - 1) = Some (Inr i)"
    using bsearch_reaches_hit[of q x u 0 "int (length (items q)) - 1" i u] by blast
  with a show "indexOfItemInQueue q x = Some (Inr i)" by (simp add: indexOfItemInQueue_def)
qed

theorem locate_exact_or_not_found_witness:
  "all_timestamped twins_queue \<and> int32_safe twins_queue \<and>
   timestampMap twins_queue twin1 = Some 100 \<and>
   search_reaches twins_queue twin1 100 0 (int (length (items twins_queue)) - 1) 0 \<and>
   item_at (items twins_queue) 0 = Some twin1 \<and>
   indexOfItemInQueue twins_queue twin1 = Some (Inr 0)"
proof -
  have a: "all_timestamped twins_queue" by (simp add: all_timestamped_def examples)
  have s: "int32_safe twins_queue" by (simp add: int32_safe_def examples)
  have t: "timestampMap twins_queue twin1 = Some 100"
    "item_at (items twins_queue) 0 = Some twin1"
    by (simp_all add: examples item_at_def)
  have "search_reaches twins_queue twin1 100 0 1 (shr1 (0 + 1))"
    by (rule search_reaches.midpoint) simp
  then have r: "search_reaches twins_queue twin1 100 0 (int (length (items twins_queue)) - 1) 0"
    by (simp add: shr1_def toInt32_def examples)
  from locate_exact_or_not_found[of twins_queue twin1 100 0] a s t r
  show ?thesis by simp
qed

text \<open>
  Claim C5. A call of \<open>enqueue\<close> that meets a timestamp for every item orders the new
  item by its recorded timestamp when it has one, whatever timestamp is supplied;
  otherwise by the supplied timestamp, and by the clock's reading when none is supplied.
  It records the timestamp it has ordered by.
\<close>

theorem enqueue_timestamp_precedence:
  assumes "all_timestamped q"
  shows "(timestampMap q x = Some recorded \<longrightarrow> enqueue_orders_by now x t q recorded) \<and>
         (timestampMap q x = None \<longrightarrow>
            enqueue_orders_by now x (Some supplied) q supplied \<and>
            enqueue_orders_by now x None q now)"
proof -
  have *: "enqueue_orders_by now' x t' q (new_timestamp q now' x t')" for now' t'
  proof -
    from enqueue_position[OF assms, of x now' t'] obtain p where p: "p \<le> length (items q)"
      "enqueue now' x t' q = (Inr (), inserted q p x (new_timestamp q now' x t'))"
      "0 < p \<longrightarrow> goes_after q x (new_timestamp q now' x t') (items q ! (p - 1))"
      "\<forall>j. p \<le> j \<and> j < length (items q) \<longrightarrow>
           \<not> goes_after q x (new_timestamp q now' x t') (items q ! j)"
      by blast
    have "timestampMap (snd (enqueue now' x t' q)) x = Some (new_timestamp q now' x t')"
      using p(2) by (simp add: inserted_def)
    with p show ?thesis unfolding enqueue_orders_by_def by blast
  qed
  show ?thesis
    using *[of now t] *[of now "Some supplied"] *[of now None]
    by (auto simp: new_timestamp_def)
qed

theorem enqueue_timestamp_precedence_witness:
  "all_timestamped two_items \<and> timestampMap two_items itemA = Some 100 \<and>
   enqueue_orders_by 7 itemA (Some 999) two_items 100 \<and>
   timestampMap two_items itemC = None \<and>
   enqueue_orders_by 7 itemC (Some 150) two_items 150 \<and>
   enqueue_orders_by 7 itemC None two_items 7 \<and>
   items (snd (enqueue 7 itemC None two_items)) = [itemC, itemA, itemB] \<and>
   timestampMap (snd (enqueue 7 itemC None two_items)) itemC = Some 7"
proof -
  have a: "all_timestamped two_items" by (simp add: all_timestamped_def examples)
  have r: "timestampMap two_items itemA = Some 100" "timestampMap two_items itemC = None"
    by (simp_all add: examples)
  have e: "items (snd (enqueue 7 itemC None two_items)) = [itemC, itemA, itemB]"
    "timestampMap (snd (enqueue 7 itemC None two_items)) itemC = Some 7"
    by (simp_all add: evaluation examples)
  from enqueue_timestamp_precedence[OF a, of itemA 100 7 "Some 999"]
    enqueue_timestamp_precedence[OF a, of itemC _ 7 _ 150] a r e
  show ?thesis by simp
qed

text \<open>
  Claim C6. On a queue that is not empty \<open>dequeue\<close> returns the first item, leaves the
  rest of the sequence as it is and deletes the timestamp of the returned item; on the
  empty queue it returns nothing and changes nothing.
\<close>

theorem dequeue_front_or_empty:
  "(items q \<noteq> [] \<longrightarrow>
      dequeue q = (Some (hd (items q)),
                   q\<lparr>items := tl (items q),
                     timestampMap := (timestampMap q)(hd (items q) := None)\<rparr>)) \<and>
   (items q = [] \<longrightarrow> dequeue q = (None, q))"
  by (cases "items q") (simp_all add: dequeue_def)

theorem dequeue_front_or_empty_witness:
  "items two_items \<noteq> [] \<and>
   dequeue two_items = (Some itemA, \<lparr>items = [itemB], timestampMap = [itemB \<mapsto> 200]\<rparr>) \<and>
   items makeQueue = [] \<and> dequeue makeQueue = (None, makeQueue)"
  using dequeue_front_or_empty[of two_items] dequeue_front_or_empty[of makeQueue]
  by (auto simp: examples makeQueue_def fun_eq_iff)

text \<open>
  Claim C7, as stated, fails. An item that is not in the queue can have a recorded
  timestamp: \<open>requeue\<close> records it before its \<open>enqueue\<close> step, and that step throws
  when the scan meets an item without timestamp. In the state reached below
  \<open>stranger\<close> is absent and timestamped, and \<open>remove(stranger)\<close> searches, meets the
  item without timestamp and throws.
\<close>

theorem remove_absent_faults:
  "run [((0, 0), Enqueue itemA (Some 100)), ((0, 0), Enqueue itemA (Some 100)),
        ((0, 0), Enqueue itemB (Some 200)), ((0, 0), Dequeue),
        ((0, 0), Requeue stranger (Some 5))] makeQueue = Some stale_queue' \<and>
   stranger \<notin> set (items stale_queue') \<and>
   remove stranger stale_queue' = Some (Inl MissingTimestamp, stale_queue')"
  by (auto simp: evaluation examples fun_eq_iff)

text \<open>
  Claim C7, amended. For an item \<open>x\<close> that is not in the queue, \<open>remove(x)\<close> returns
  normally and leaves the state, hence what \<open>list()\<close> returns, unchanged, provided
  \<open>x\<close> has no recorded timestamp (as for an item never passed to \<open>enqueue\<close> or
  \<open>requeue\<close>), or every item of the sequence has one and there are at most \<open>2^30\<close>
  items.
\<close>

theorem remove_absent_noop:
  assumes "x \<notin> set (items q)"
    and "timestampMap q x = None \<or> (all_timestamped q \<and> int32_safe q)"
  shows "remove x q = Some (Inr (), q) \<and>
         map_option (list \<circ> snd) (remove x q) = Some (list q)"
proof -
  have "indexOfItemInQueue q x = Some (Inr (- 1))"
  proof (cases "timestampMap q x = None")
    case True
    then show ?thesis by (rule locate_untimestamped)
  next
    case False
    with assms(2) have "all_timestamped q" "int32_safe q" by auto
    from locate_returns[OF this, of x] obtain k where
      k: "indexOfItemInQueue q x = Some (Inr k)"
      "k = - 1 \<or> (0 \<le> k \<and> k < int (length (items q)) \<and> items q ! nat k = x)" by blast
    have "k = - 1"
    proof (rule ccontr)
      assume "k \<noteq> - 1"
      with k(2) have "nat k < length (items q)" "items q ! nat k = x" by auto
      then have "x \<in> set (items q)" by (auto simp: in_set_conv_nth)
      with assms(1) show False by simp
    qed
    with k(1) show ?thesis by simp
  qed
  then have "remove x q = Some (Inr (), q)" by (rule remove_not_found)
  then show ?thesis by simp
qed

theorem remove_absent_noop_witness:
  "stranger \<notin> set (items two_items) \<and> timestampMap two_items stranger = None \<and>
   remove stranger two_items = Some (Inr (), two_items) \<and>
   itemA \<notin> set (items \<lparr>items = [itemB], timestampMap = [itemA \<mapsto> 100, itemB \<mapsto> 200]\<rparr>) \<and>
   all_timestamped \<lparr>items = [itemB], timestampMap = [itemA \<mapsto> 100, itemB \<mapsto> 200]\<rparr> \<and>
   int32_safe \<lparr>items = [itemB], timestampMap = [itemA \<mapsto> 100, itemB \<mapsto> 200]\<rparr> \<and>
   remove itemA \<lparr>items = [itemB], timestampMap = [itemA \<mapsto> 100, itemB \<mapsto> 200]\<rparr>
     = Some (Inr (), \<lparr>items = [itemB], timestampMap = [itemA \<mapsto> 100, itemB \<mapsto> 200]\<rparr>)"
proof -
  let ?q = "\<lparr>items = [itemB], timestampMap = [itemA \<mapsto> 100, itemB \<mapsto> 200]\<rparr>"
  have a: "stranger \<notin> set (items two_items)" "timestampMap two_items stranger = None"
    by (simp_all add: examples)
  have b: "itemA \<notin> set (items ?q)" "all_timestamped ?q" "int32_safe ?q"
    by (simp_all add: examples all_timestamped_def int32_safe_def)
  from remove_absent_noop[OF a(1), THEN conjunct1] a(2)
  have 1: "remove stranger two_items = Some (Inr (), two_items)" by simp
  from remove_absent_noop[OF b(1), THEN conjunct1] b(2,3)
  have 2: "remove itemA ?q = Some (Inr (), ?q)" by simp
  from a b 1 2 show ?thesis by simp
qed

text \<open>
  Claim C8, as stated, fails. \<open>requeue\<close> relies on the binary search to find the
  item, and the search does not find an item whose key and timestamp another queued
  item has too. With the twins in the queue, \<open>requeue(twin2, 50)\<close> returns normally,
  but it has not removed \<open>twin2\<close> from where it sat: the queue now holds it twice.
\<close>

theorem twin_requeue_stays:
  "run [((0, 0), Enqueue twin2 (Some 100)), ((0, 0), Enqueue twin1 (Some 100))] makeQueue
     = Some twins_queue \<and>
   items twins_queue = [twin1, twin2] \<and>
   requeue 0 0 twin2 (Some 50) twins_queue =
     Some (Inr (), \<lparr>items = [twin2, twin1, twin2],
                    timestampMap = [twin1 \<mapsto> 100, twin2 \<mapsto> 50]\<rparr>)"
  by (auto simp: evaluation examples fun_eq_iff)

text \<open>
  Claim C8, amended. Take a sorted queue of at most \<open>2^30\<close> items in which no object
  is queued twice and every item has a recorded timestamp, and an item \<open>x\<close> that shares
  both key and recorded timestamp with no other queued item. Then \<open>requeue(x, t)\<close>
  returns normally; the sequence it leaves is the old one with \<open>x\<close> taken out
  (unchanged if \<open>x\<close> was absent) and \<open>x\<close> inserted where the scan with timestamp \<open>t\<close>
  stops, whatever timestamp was recorded for \<open>x\<close> before; and \<open>t\<close> is the timestamp
  recorded for \<open>x\<close>. Concretely, after \<open>enqueue(A, 100)\<close> and \<open>enqueue(B, 200)\<close>,
  \<open>requeue(A, 300)\<close> yields \<open>[B, A]\<close> with timestamps \<open>200, 300\<close>.
\<close>

theorem requeue_relocates:
  "(distinct (items q) \<and> sort_invariant q \<and> all_timestamped q \<and> int32_safe q \<and>
    unrivalled q x \<longrightarrow>
      (\<exists>p\<le>length (remove1 x (items q)).
         requeue now now' x (Some t) q =
           Some (Inr (),
                 \<lparr>items = take p (remove1 x (items q)) @ [x] @ drop p (remove1 x (items q)),
                  timestampMap = (timestampMap q)(x \<mapsto> t)\<rparr>) \<and>
         (\<forall>j<p. goes_after q x t (remove1 x (items q) ! j)) \<and>
         (\<forall>j. p \<le> j \<and> j < length (remove1 x (items q)) \<longrightarrow>
              \<not> goes_after q x t (remove1 x (items q) ! j)))) \<and>
   map_option items
     (run [((0, 0), Enqueue itemA (Some 100)), ((0, 0), Enqueue itemB (Some 200)),
           ((0, 0), Requeue itemA (Some 300))] makeQueue) = Some [itemB, itemA] \<and>
   map_option timestamps
     (run [((0, 0), Enqueue itemA (Some 100)), ((0, 0), Enqueue itemB (Some 200)),
           ((0, 0), Requeue itemA (Some 300))] makeQueue) = Some [Some 200, Some 300]"
proof (intro conjI impI)
  assume a: "distinct (items q) \<and> sort_invariant q \<and> all_timestamped q \<and> int32_safe q \<and>
    unrivalled q x"
  then have h: "distinct (items q)" "sort_invariant q" "all_timestamped q" "int32_safe q"
    "unrivalled q x" by auto
  from requeue_result[OF h, where now = now and t = "Some t" and now' = now']
  show "\<exists>p\<le>length (remove1 x (items q)).
         requeue now now' x (Some t) q =
           Some (Inr (),
                 \<lparr>items = take p (remove1 x (items q)) @ [x] @ drop p (remove1 x (items q)),
                  timestampMap = (timestampMap q)(x \<mapsto> t)\<rparr>) \<and>
         (\<forall>j<p. goes_after q x t (remove1 x (items q) ! j)) \<and>
         (\<forall>j. p \<le> j \<and> j < length (remove1 x (items q)) \<longrightarrow>
              \<not> goes_after q x t (remove1 x (items q) ! j))"
    by auto
qed (simp_all add: evaluation examples timestamps_def)

theorem requeue_relocates_witness:
  "distinct (items two_items) \<and> sort_invariant two_items \<and> all_timestamped two_items \<and>
   int32_safe two_items \<and> unrivalled two_items itemA \<and>
   (\<exists>p\<le>length (remove1 itemA (items two_items)).
      requeue 0 0 itemA (Some 300) two_items =
        Some (Inr (),
              \<lparr>items = take p (remove1 itemA (items two_items)) @ [itemA] @
                        drop p (remove1 itemA (items two_items)),
               timestampMap = (timestampMap two_items)(itemA \<mapsto> 300)\<rparr>)) \<and>
   map_option (items \<circ> snd) (requeue 0 0 itemA (Some 300) two_items) = Some [itemB, itemA]"
proof -
  have h: "distinct (items two_items)" "sort_invariant two_items" "all_timestamped two_items"
    "int32_safe two_items" "unrivalled two_items itemA"
    by (simp_all add: sort_invariant_def in_order_def all_timestamped_def int32_safe_def
        unrivalled_def examples)
  have e: "map_option (items \<circ> snd) (requeue 0 0 itemA (Some 300) two_items) = Some [itemB, itemA]"
    by (simp add: evaluation examples)
  from requeue_relocates[of two_items itemA 0 0 300, THEN conjunct1] h
  have "\<exists>p\<le>length (remove1 itemA (items two_items)).
      requeue 0 0 itemA (Some 300) two_items =
        Some (Inr (),
              \<lparr>items = take p (remove1 itemA (items two_items)) @ [itemA] @
                        drop p (remove1 itemA (items two_items)),
               timestampMap = (timestampMap two_items)(itemA \<mapsto> 300)\<rparr>)"
    by blast
  with h e show ?thesis by blast
qed

text \<open>
  Claim C9, as stated, fails for \<open>requeue\<close>. In the state reached below the sequence
  is \<open>[A, B, D]\<close> and \<open>A\<close> has no timestamp. \<open>requeue(D, 50)\<close> finds \<open>D\<close> without
  looking at \<open>A\<close>, splices it out and records \<open>50\<close>; then the scan of its \<open>enqueue\<close>
  step reaches \<open>A\<close> and throws. The call leaves \<open>[A, B]\<close> and the timestamp \<open>50\<close>
  for \<open>D\<close>: neither the sequence nor the association is as it was before the call.
\<close>

theorem requeue_fault_not_atomic:
  "run [((0, 0), Enqueue itemA (Some 100)), ((0, 0), Enqueue itemA (Some 100)),
        ((0, 0), Enqueue itemB (Some 200)), ((0, 0), Enqueue itemD (Some 300)),
        ((0, 0), Dequeue)] makeQueue = Some stale_three \<and>
   items stale_three = [itemA, itemB, itemD] \<and>
   timestampMap stale_three itemA = None \<and>
   timestampMap stale_three itemD = Some 300 \<and>
   requeue 0 0 itemD (Some 50) stale_three =
     Some (Inl MissingTimestamp,
           \<lparr>items = [itemA, itemB], timestampMap = [itemB \<mapsto> 200, itemD \<mapsto> 50]\<rparr>)"
  by (auto simp: evaluation examples fun_eq_iff)

text \<open>
  Claim C9, amended. When the scan of \<open>enqueue\<close> reaches an item without recorded
  timestamp, \<open>enqueue\<close> throws \<open>MissingTimestamp\<close> and leaves the state as it was
  before the call. When the binary search reaches such an item, \<open>indexOfItemInQueue\<close>
  throws \<open>MissingTimestamp\<close>, and so do \<open>remove\<close> and \<open>requeue\<close>, which search
  first, leaving the state as it was before the call. When the search of \<open>requeue\<close>
  succeeds and the scan of its \<open>enqueue\<close> step then reaches such an item, \<open>requeue\<close>
  throws \<open>MissingTimestamp\<close> after its removal and after recording the new
  timestamp: the state it leaves is the one in which the \<open>enqueue\<close> step began, not
  the one before the call.
\<close>

theorem missing_timestamp_fault:
  "(scan_reaches q x (new_timestamp q now x t) i \<and> timestampMap q (items q ! i) = None \<longrightarrow>
      enqueue now x t q = (Inl MissingTimestamp, q)) \<and>
   (timestampMap q y = Some u \<and> search_reaches q y u 0 (int (length (items q)) - 1) k \<and>
    0 \<le> k \<and> k < int (length (items q)) \<and> timestampMap q (items q ! nat k) = None \<longrightarrow>
      indexOfItemInQueue q y = Some (Inl MissingTimestamp) \<and>
      remove y q = Some (Inl MissingTimestamp, q) \<and>
      requeue now now' y t q = Some (Inl MissingTimestamp, q)) \<and>
   (remove z q = Some (Inr (), q1) \<and>
    scan_reaches (stamped q1 z (case t of None \<Rightarrow> now | Some s \<Rightarrow> s)) z
      (case t of None \<Rightarrow> now | Some s \<Rightarrow> s) m \<and>
    timestampMap (stamped q1 z (case t of None \<Rightarrow> now | Some s \<Rightarrow> s)) (items q1 ! m) = None \<longrightarrow>
      requeue now now' z t q =
        Some (Inl MissingTimestamp, stamped q1 z (case t of None \<Rightarrow> now | Some s \<Rightarrow> s)))"
proof (intro conjI impI)
  assume "scan_reaches q x (new_timestamp q now x t) i \<and> timestampMap q (items q ! i) = None"
  then have "scan q x (new_timestamp q now x t) (int (length (items q)) - 1) = Inl MissingTimestamp"
    using scan_reaches_fault[of q x "new_timestamp q now x t" i] by blast
  then show "enqueue now x t q = (Inl MissingTimestamp, q)" by (rule enqueue_fault)
next
  assume a: "timestampMap q y = Some u \<and> search_reaches q y u 0 (int (length (items q)) - 1) k \<and>
    0 \<le> k \<and> k < int (length (items q)) \<and> timestampMap q (items q ! nat k) = None"
  then show l: "indexOfItemInQueue q y = Some (Inl MissingTimestamp)"
    using locate_fault[of q y u k] by simp
  then show r: "remove y q = Some (Inl MissingTimestamp, q)" by (rule remove_fault)
  then show "requeue now now' y t q = Some (Inl MissingTimestamp, q)"
    by (simp add: requeue_def)
next
  let ?T = "case t of None \<Rightarrow> now | Some s \<Rightarrow> s"
  let ?q2 = "stamped q1 z ?T"
  assume a: "remove z q = Some (Inr (), q1) \<and> scan_reaches ?q2 z ?T m \<and>
    timestampMap ?q2 (items q1 ! m) = None"
  have n: "new_timestamp ?q2 now' z None = ?T" by (simp add: new_timestamp_def stamped_def)
  have "items ?q2 = items q1" by (simp add: stamped_def)
  with a have "scan ?q2 z ?T (int (length (items ?q2)) - 1) = Inl MissingTimestamp"
    using scan_reaches_fault[of ?q2 z ?T m] by simp
  then have "enqueue now' z None ?q2 = (Inl MissingTimestamp, ?q2)"
    using enqueue_fault[of ?q2 z now' None MissingTimestamp] n by simp
  with a show "requeue now now' z t q = Some (Inl MissingTimestamp, ?q2)"
    by (simp add: requeue_def stamped_def)
qed

theorem missing_timestamp_fault_witness:
  "scan_reaches stale_queue stranger (new_timestamp stale_queue 0 stranger (Some 5)) 0 \<and>
   timestampMap stale_queue (items stale_queue ! 0) = None \<and>
   enqueue 0 stranger (Some 5) stale_queue = (Inl MissingTimestamp, stale_queue) \<and>
   timestampMap stale_queue itemB = Some 200 \<and>
   search_reaches stale_queue itemB 200 0 (int (length (items stale_queue)) - 1) 0 \<and>
   (0::int) < int (length (items stale_queue)) \<and>
   timestampMap stale_queue (items stale_queue ! nat 0) = None \<and>
   indexOfItemInQueue stale_queue itemB = Some (Inl MissingTimestamp) \<and>
   remove itemB stale_queue = Some (Inl MissingTimestamp, stale_queue) \<and>
   requeue 0 0 itemB (Some 5) stale_queue = Some (Inl MissingTimestamp, stale_queue) \<and>
   remove stranger stale_queue = Some (Inr (), stale_queue) \<and>
   scan_reaches (stamped stale_queue stranger 5) stranger 5 0 \<and>
   timestampMap (stamped stale_queue stranger 5) (items stale_queue ! 0) = None \<and>
   requeue 0 0 stranger (Some 5) stale_queue =
     Some (Inl MissingTimestamp, stamped stale_queue stranger 5)"
proof -
  have s: "scan_reaches stale_queue stranger (new_timestamp stale_queue 0 stranger (Some 5)) 0"
    by (simp add: scan_reaches_def new_timestamp_def goes_after_def examples)
  have n: "timestampMap stale_queue (items stale_queue ! 0) = None"
    "timestampMap stale_queue (items stale_queue ! nat 0) = None"
    "timestampMap stale_queue itemB = Some 200"
    "(0::int) < int (length (items stale_queue))"
    by (simp_all add: examples)
  have "search_reaches stale_queue itemB 200 0 1 (shr1 (0 + 1))"
    by (rule search_reaches.midpoint) simp
  then have r: "search_reaches stale_queue itemB 200 0 (int (length (items stale_queue)) - 1) 0"
    by (simp add: shr1_def toInt32_def examples)
  have v: "remove stranger stale_queue = Some (Inr (), stale_queue)"
    by (simp add: evaluation examples)
  have w: "scan_reaches (stamped stale_queue stranger 5) stranger 5 0"
    "timestampMap (stamped stale_queue stranger 5) (items stale_queue ! 0) = None"
    by (simp_all add: scan_reaches_def stamped_def goes_after_def examples)
  from missing_timestamp_fault[where q = stale_queue and x = stranger and now = 0
      and t = "Some 5" and i = 0 and y = itemB and u = 200 and k = 0 and now' = 0
      and z = stranger and ?q1.0 = stale_queue and m = 0] s n r v w
  show ?thesis by simp
qed

text \<open>
  Claim C10. With the timestamp supplied, the outcome and the state \<open>enqueue\<close> and
  \<open>requeue\<close> leave do not depend on what the clock reads. (\<open>dequeue\<close>, \<open>remove\<close>,
  \<open>list\<close>, the scan and the search never read the clock, so they take no reading in the
  model; as functions of state and arguments they are deterministic.)
\<close>

theorem explicit_timestamp_deterministic:
  "enqueue now1 x (Some t) q = enqueue now2 x (Some t) q \<and>
   requeue now1 now1' x (Some t) q = requeue now2 now2' x (Some t) q"
proof -
  have "enqueue n x None q' = enqueue n' x None q'" if "timestampMap q' x \<noteq> None" for n n' q'
    using that by (auto simp: enqueue_def)
  then show ?thesis
    by (auto simp: enqueue_def requeue_def split: option.splits sum.splits prod.splits)
qed

end
